theory Spec2Isabelle
  imports
    Complex_Main
    "HOL-Library.Word"
    "HOL-Library.Signed_Division"
    "HOL-Library.Product_Lexorder"
begin

unbundle bit_operations_syntax

section \<open>cycInt.h: cycle domains and the conversion macros\<close>

text \<open>
  The header defines the three cycle-domain tags and the two multipliers as integer
  constants, and the two conversions as macros over an expression \<open>cyc\<close>, a tag
  \<open>type\<close> and the global \<open>nCpuFreqShift\<close>. The operands that the header itself declares
  for them are C \<open>int\<close>s (\<open>CycleTime\<close>, \<open>PendingInterruptCount\<close>, the result of
  \<open>CycInt_FindCyclesPassed\<close>), so the macros are modelled in the arithmetic of a 32-bit
  \<open>int\<close>: a value is a 32-bit word read in two's complement (\<open>sint\<close>), and \<open>*\<close>, \<open>+\<close>,
  \<open>-\<close> and \<open><<\<close> wrap around, which is what an overflowing evaluation yields on the
  usual targets (the C standard leaves a signed overflow undefined).
\<close>

type_synonym c_int = "32 word"

definition INT_CPU_CYCLE :: int where
  "INT_CPU_CYCLE = 1"

definition INT_MFP_CYCLE :: int where
  "INT_MFP_CYCLE = 2"

definition INT_CPU8_CYCLE :: int where
  "INT_CPU8_CYCLE = 3"

definition INT_CPU_TO_INTERNAL :: int where
  "INT_CPU_TO_INTERNAL = 9600"

definition INT_MFP_TO_INTERNAL :: int where
  "INT_MFP_TO_INTERNAL = 31333"


text \<open>
  The shifts \<open>a << s\<close> and \<open>a >> s\<close> of C on \<open>int\<close>, with the shift count as the integer
  it is: a negative count, or one that is not less than the width 32, has no defined
  result, which is \<open>None\<close>. The right shift of a negative value is the arithmetic one.
\<close>

definition c_shl :: "c_int \<Rightarrow> int \<Rightarrow> c_int option" where
  "c_shl a s = (if 0 \<le> s \<and> s < 32 then Some (push_bit (nat s) a) else None)"


text \<open>
  \<^verbatim>\<open>INT_CONVERT_TO_INTERNAL(cyc, type)\<close>: the first argument of the model is the value
  of the global \<open>nCpuFreqShift\<close> that the macro reads. The nominal-CPU branch does not
  evaluate the shift.
\<close>

definition INT_CONVERT_TO_INTERNAL :: "int \<Rightarrow> c_int \<Rightarrow> int \<Rightarrow> c_int option" where
  "INT_CONVERT_TO_INTERNAL nCpuFreqShift cyc type =
     (if type = INT_CPU_CYCLE then Some (cyc * word_of_int INT_CPU_TO_INTERNAL)
      else if type = INT_MFP_CYCLE then
        c_shl (cyc * word_of_int INT_MFP_TO_INTERNAL) nCpuFreqShift
      else c_shl (cyc * word_of_int INT_CPU_TO_INTERNAL) nCpuFreqShift)"


text \<open>The values of a C \<open>int\<close>.\<close>

definition in_int_range :: "int \<Rightarrow> bool" where
  "in_int_range k = (- (2 ^ 31) \<le> k \<and> k < 2 ^ 31)"

section \<open>console.c: the character mapper and the VT52 emulation\<close>

type_synonym Uint8 = "8 word"

text \<open>
  Reading \<open>a[i]\<close> of a C array: \<open>None\<close> stands for an index outside the array, where the
  program has no defined behaviour.
\<close>

definition array_read :: "'a list \<Rightarrow> int \<Rightarrow> 'a option" where
  "array_read a i = (if 0 \<le> i \<and> i < int (length a) then Some (a ! nat i) else None)"

text \<open>
  The two static tables of \<open>map_character\<close>, byte for byte: \<open>map_0_31[32]\<close> and
  \<open>map_128_255[128]\<close>, eight entries to a row as in the source.
\<close>

definition map_0_31 :: "Uint8 list" where
  "map_0_31 = map of_char
     (''........'' @
      [CHR 0x08, CHR 0x09, CHR 0x0A, CHR ''.'', CHR ''.'', CHR 0x0D, CHR ''.'', CHR ''.''] @
      ''01234567'' @
      ''89......'')"

definition map_128_255 :: "Uint8 list" where
  "map_128_255 = map of_char
     (''CUeaaaac'' @
      ''eeeiiiAA'' @
      ''EaAooouu'' @
      ''youc.YBf'' @
      ''aiounNao'' @
      ''?....i<>'' @
      ''aoOooOAA'' @
      [CHR ''O'', CHR 0x22, CHR 0x27, CHR ''.'', CHR ''.'', CHR ''C'', CHR ''R'', CHR ''.''] @
      ''jJ......'' @
      ''........'' @
      ''........'' @
      ''......^.'' @
      ''........'' @
      ''........'' @
      ''........'' @
      ''........'')"

text \<open>
  \<open>map_character(value)\<close>: the result is the list of bytes the call writes to
  \<open>stderr\<close> with \<open>fputc\<close>, or \<open>None\<close> when a table is read outside its bounds. The
  comparisons and the subtraction are done on \<open>int\<close>, to which C promotes the
  \<open>Uint8\<close> argument.
\<close>

definition map_character :: "Uint8 \<Rightarrow> Uint8 list option" where
  "map_character v =
     (if uint v < 32 then
        (case array_read map_0_31 (uint v) of None \<Rightarrow> None | Some c \<Rightarrow> Some [c])
      else if uint v > 127 then
        (case array_read map_128_255 (uint v - 128) of None \<Rightarrow> None | Some c \<Rightarrow> Some [c])
      else Some [v])"

text \<open>
  The static variables of \<open>vt52_emu\<close>; C initialises them to zero. The \<open>int\<close>
  variables are modelled as integers: the two escape counters stay below 4, and the claim
  about the positions does not depend on the width of the two column counters.
\<close>

datatype escape_type_t = ESCAPE_NONE | ESCAPE_POSITION

record vt52_state =
  escape_index :: int
  escape_target :: int
  hpos_host :: int
  hpos_tos :: int
  need_nl :: bool
  escape_type :: escape_type_t

definition vt52_init :: vt52_state where
  "vt52_init = \<lparr> escape_index = 0, escape_target = 0, hpos_host = 0, hpos_tos = 0,
                  need_nl = False, escape_type = ESCAPE_NONE \<rparr>"

text \<open>\<open>fprintf(stderr, "%*s", n, "")\<close> pads the empty string to the width \<open>n\<close>.\<close>

definition pad :: "int \<Rightarrow> Uint8 list" where
  "pad n = replicate (nat \<bar>n\<bar>) (of_char CHR '' '')"

text \<open>
  The tail of the escape branch of \<open>vt52_emu\<close>, from the test of \<open>escape_type\<close> to the
  \<open>return\<close>: for a cursor-position sequence the last byte gives the horizontal position.
  \<open>out\<close> is what the call has written so far.
\<close>

definition escape_end :: "vt52_state \<Rightarrow> Uint8 \<Rightarrow> Uint8 list \<Rightarrow> vt52_state \<times> Uint8 list" where
  "escape_end s v out =
     (if escape_type s = ESCAPE_POSITION then
        let h0 = uint v - uint (of_char CHR '' '' :: Uint8);
            h = (if h0 > 79 then 79 else if h0 < 0 then 0 else h0);
            s1 = s\<lparr>hpos_tos := h\<rparr>
        in if hpos_tos s1 > hpos_host s1 then
             (s1\<lparr>hpos_host := hpos_tos s1, escape_target := 0\<rparr>,
              out @ pad (hpos_tos s1 - hpos_host s1))
           else if hpos_tos s1 < hpos_host s1 then
             (s1\<lparr>need_nl := True, escape_target := 0\<rparr>, out)
           else (s1\<lparr>escape_target := 0\<rparr>, out)
      else (s\<lparr>escape_target := 0\<rparr>, out))"

text \<open>The last part of \<open>vt52_emu\<close>: the host cursor moves and the character is mapped.\<close>

definition host_output :: "vt52_state \<Rightarrow> Uint8 \<Rightarrow> Uint8 list \<Rightarrow> (vt52_state \<times> Uint8 list) option" where
  "host_output s v out =
     (let s1 =
        (if v = 0x08 then s\<lparr>hpos_host := hpos_host s - 1\<rparr>
         else if v = 0x09 then s\<lparr>hpos_host := (hpos_host s + 8) AND 0xfff0\<rparr>
         else if v = 0x0D \<or> v = 0x0A then s\<lparr>hpos_host := 0\<rparr>
         else s\<lparr>hpos_host := hpos_host s + 1\<rparr>)
      in case map_character v of None \<Rightarrow> None | Some bytes \<Rightarrow> Some (s1, out @ bytes))"

text \<open>
  \<open>vt52_emu(value)\<close>, one call: the state machine over the static variables. The result
  is the new state and the bytes written to \<open>stderr\<close>.
\<close>

definition vt52_emu :: "vt52_state \<Rightarrow> Uint8 \<Rightarrow> (vt52_state \<times> Uint8 list) option" where
  "vt52_emu s v =
     (if escape_target s \<noteq> 0 then
        let s1 = s\<lparr>escape_index := escape_index s + 1\<rparr>
        in if escape_index s1 = 1 then
             (if v = of_char CHR ''E'' then
                Some (escape_end (s1\<lparr>hpos_host := 0\<rparr>) v [0x0A])
              else if v = of_char CHR ''b'' \<or> v = of_char CHR ''c'' then
                Some (s1\<lparr>escape_target := 2\<rparr>, [])
              else if v = of_char CHR ''Y'' then
                Some (s1\<lparr>escape_type := ESCAPE_POSITION, escape_target := 3\<rparr>, [])
              else Some (escape_end s1 v []))
           else if escape_index s1 < escape_target s1 then Some (s1, [])
           else Some (escape_end s1 v [])
      else if v = 27 then
        Some (s\<lparr>escape_type := ESCAPE_NONE, escape_target := 1, escape_index := 0\<rparr>, [])
      else if need_nl s then
        (if v = of_char CHR '' '' then Some (s\<lparr>hpos_tos := hpos_tos s + 1\<rparr>, [])
         else if v = 0x08 then Some (s\<lparr>hpos_tos := hpos_tos s - 1\<rparr>, [])
         else if v = 0x09 then Some (s\<lparr>hpos_tos := (hpos_tos s + 8) AND 0xfff0\<rparr>, [])
         else
           let s1 = (if v = 0x0D \<or> v = 0x0A then s\<lparr>hpos_tos := 0\<rparr> else s);
               s2 = (if hpos_tos s1 > 0 \<and> hpos_tos s1 < 80
                     then s1\<lparr>hpos_host := hpos_tos s1\<rparr> else s1\<lparr>hpos_host := 0\<rparr>);
               out = (if hpos_tos s1 > 0 \<and> hpos_tos s1 < 80 then pad (hpos_tos s1) else [])
           in host_output (s2\<lparr>need_nl := False\<rparr>) v (0x0A # out))
      else host_output s v [])"

text \<open>A sequence of calls, one for each byte; the output is concatenated.\<close>

fun vt52_run :: "vt52_state \<Rightarrow> Uint8 list \<Rightarrow> (vt52_state \<times> Uint8 list) option" where
  "vt52_run s [] = Some (s, [])"
| "vt52_run s (v # vs) =
     (case vt52_emu s v of
        None \<Rightarrow> None
      | Some (s1, out1) \<Rightarrow>
          (case vt52_run s1 vs of
             None \<Rightarrow> None
           | Some (s2, out2) \<Rightarrow> Some (s2, out1 @ out2)))"

section \<open>cycInt.h: the handler identities\<close>

text \<open>
  \<open>interrupt_id\<close> is a C enumeration: its members are the integers 0, 1, 2, ... in the
  order of the declaration, and \<open>MAX_INTERRUPTS\<close>, the last member, is their count.
\<close>

type_synonym interrupt_id = nat

definition INTERRUPT_NULL :: interrupt_id where "INTERRUPT_NULL = 0"
definition INTERRUPT_VIDEO_VBL :: interrupt_id where "INTERRUPT_VIDEO_VBL = 1"
definition INTERRUPT_VIDEO_HBL :: interrupt_id where "INTERRUPT_VIDEO_HBL = 2"
definition INTERRUPT_VIDEO_ENDLINE :: interrupt_id where "INTERRUPT_VIDEO_ENDLINE = 3"
definition INTERRUPT_MFP_MAIN_TIMERA :: interrupt_id where "INTERRUPT_MFP_MAIN_TIMERA = 4"
definition INTERRUPT_MFP_MAIN_TIMERB :: interrupt_id where "INTERRUPT_MFP_MAIN_TIMERB = 5"
definition INTERRUPT_MFP_MAIN_TIMERC :: interrupt_id where "INTERRUPT_MFP_MAIN_TIMERC = 6"
definition INTERRUPT_MFP_MAIN_TIMERD :: interrupt_id where "INTERRUPT_MFP_MAIN_TIMERD = 7"
definition INTERRUPT_MFP_TT_TIMERA :: interrupt_id where "INTERRUPT_MFP_TT_TIMERA = 8"
definition INTERRUPT_MFP_TT_TIMERB :: interrupt_id where "INTERRUPT_MFP_TT_TIMERB = 9"
definition INTERRUPT_MFP_TT_TIMERC :: interrupt_id where "INTERRUPT_MFP_TT_TIMERC = 10"
definition INTERRUPT_MFP_TT_TIMERD :: interrupt_id where "INTERRUPT_MFP_TT_TIMERD = 11"
definition INTERRUPT_ACIA_IKBD :: interrupt_id where "INTERRUPT_ACIA_IKBD = 12"
definition INTERRUPT_IKBD_RESETTIMER :: interrupt_id where "INTERRUPT_IKBD_RESETTIMER = 13"
definition INTERRUPT_IKBD_AUTOSEND :: interrupt_id where "INTERRUPT_IKBD_AUTOSEND = 14"
definition INTERRUPT_DMASOUND_MICROWIRE :: interrupt_id where "INTERRUPT_DMASOUND_MICROWIRE = 15"
definition INTERRUPT_CROSSBAR_25MHZ :: interrupt_id where "INTERRUPT_CROSSBAR_25MHZ = 16"
definition INTERRUPT_CROSSBAR_32MHZ :: interrupt_id where "INTERRUPT_CROSSBAR_32MHZ = 17"
definition INTERRUPT_FDC :: interrupt_id where "INTERRUPT_FDC = 18"
definition INTERRUPT_BLITTER :: interrupt_id where "INTERRUPT_BLITTER = 19"
definition INTERRUPT_MIDI :: interrupt_id where "INTERRUPT_MIDI = 20"
definition MAX_INTERRUPTS :: nat where "MAX_INTERRUPTS = 21"

section \<open>The pending-event table, the dispatcher and the snapshot adapter\<close>

text \<open>
  The header only declares the scheduler's functions (\<open>CycInt_AddAbsoluteInterrupt\<close>,
  \<open>CycInt_MemorySnapShot_Capture\<close>, \<open>CycInt_AcknowledgeInterrupt\<close>, ...); their bodies
  are in \<open>cycInt.c\<close>, which is not among the source files. The definitions of this
  section are therefore modelled from the specification (sections 3, 4.1, 4.2, 4.3, 6
  and 7), on top of the enumeration and the constants of the header. Tick counts are
  mathematical integers.
\<close>

text \<open>
  Modelled from the spec: the ordering structure of the pending-event table of
  \<open>cycInt.c\<close>. The armed entries form an ordered chain, nearest event first; each entry
  is a pair of its remaining ticks, "stored as a delta from the previous nearer event"
  (the head's delta counts from now), and its handler identity.
\<close>

type_synonym chain = "(int \<times> interrupt_id) list"

text \<open>
  Modelled from the spec: the state of \<open>cycInt.c\<close>, that is the chain, the frequency
  multiplier that the converter reads, and the marker of the handler that is being
  dispatched and is not yet acknowledged.
\<close>

record event_table =
  chain :: chain
  nCpuFreqShift :: nat
  dispatching :: "interrupt_id option"

text \<open>
  Modelled from the spec: the failures of \<open>cycInt.c\<close> (section 7), an invalid handler
  identity and the two reasons for which a snapshot is rejected.
\<close>

datatype cycint_error = Invalid_Handler | Size_Mismatch | Negative_Ticks

text \<open>
  Modelled from the spec: the ticks stored with a handler in a list of entries, if the
  handler has an entry.
\<close>

fun lookup_ticks :: "(int \<times> interrupt_id) list \<Rightarrow> interrupt_id \<Rightarrow> int option" where
  "lookup_ticks [] h = None"
| "lookup_ticks ((a, g) # rest) h = (if g = h then Some a else lookup_ticks rest h)"

text \<open>
  Modelled from the spec: the pending event of \<open>cycInt.c\<close>, "one slot per handler
  identity", \<open>{active, remaining_ticks}\<close>. A handler identity with no entry in the chain
  is an inactive slot.
\<close>

record pending_event =
  active :: bool
  remaining_ticks :: int

definition slot :: "event_table \<Rightarrow> interrupt_id \<Rightarrow> pending_event" where
  "slot t h =
     (case lookup_ticks (chain t) h of
        None \<Rightarrow> \<lparr>active = False, remaining_ticks = 0\<rparr>
      | Some d \<Rightarrow> \<lparr>active = True, remaining_ticks = d\<rparr>)"

text \<open>
  Modelled from the spec: resolving the deltas of a chain to absolute remaining ticks,
  counted from \<open>base\<close>.
\<close>

fun absolutes :: "int \<Rightarrow> chain \<Rightarrow> (int \<times> interrupt_id) list" where
  "absolutes base [] = []"
| "absolutes base ((d, g) # rest) = (base + d, g) # absolutes (base + d) rest"

text \<open>
  Modelled from the spec: the chain of deltas of a list of absolute remaining ticks, the
  inverse of \<open>absolutes\<close>.
\<close>

fun deltas :: "int \<Rightarrow> (int \<times> interrupt_id) list \<Rightarrow> chain" where
  "deltas base [] = []"
| "deltas base ((a, g) # rest) = (a - base, g) # deltas a rest"

text \<open>
  Modelled from the spec: \<open>active_now()\<close>, the body of \<open>CycInt_GetActiveInt\<close>, "the
  handler identity currently at the head of the due queue", if there is one.
\<close>

definition CycInt_GetActiveInt :: "event_table \<Rightarrow> interrupt_id option" where
  "CycInt_GetActiveInt t = (case chain t of [] \<Rightarrow> None | (d, h) # rest \<Rightarrow> Some h)"

text \<open>
  Modelled from the spec: the absolute remaining ticks of a handler, from now, if it is
  armed.
\<close>

definition absolute_ticks :: "event_table \<Rightarrow> interrupt_id \<Rightarrow> int option" where
  "absolute_ticks t h = lookup_ticks (absolutes 0 (chain t)) h"

text \<open>
  Modelled from the spec: \<open>reset()\<close>, the body of \<open>CycInt_Reset\<close>, "clears the entire
  table".
\<close>

definition CycInt_Reset :: "event_table \<Rightarrow> event_table" where
  "CycInt_Reset t = t\<lparr>chain := [], dispatching := None\<rparr>"

text \<open>
  Modelled from the spec: taking a handler's entry out of the chain. Its delta goes to
  the next entry, whose absolute due-time is so preserved; a chain without the handler
  stays as it is.
\<close>

fun remove_entry :: "interrupt_id \<Rightarrow> chain \<Rightarrow> chain" where
  "remove_entry h [] = []"
| "remove_entry h [(d, g)] = (if g = h then [] else [(d, g)])"
| "remove_entry h ((d, g) # (d', g') # rest) =
     (if g = h then (d + d', g') # rest else (d, g) # remove_entry h ((d', g') # rest))"

text \<open>
  Modelled from the spec: inserting an entry that is due \<open>ticks\<close> from now. The walk
  along the chain subtracts the deltas it passes; the entry goes in front of the first
  entry that is due later, or due at the same time with a higher handler identity
  ("lower-valued identity fires first"), and that entry's delta is reduced by the new
  entry's.
\<close>

fun insert_entry :: "int \<Rightarrow> interrupt_id \<Rightarrow> chain \<Rightarrow> chain" where
  "insert_entry ticks h [] = [(ticks, h)]"
| "insert_entry ticks h ((d, g) # rest) =
     (if ticks < d \<or> (ticks = d \<and> h < g) then (ticks, h) # (d - ticks, g) # rest
      else (d, g) # insert_entry (ticks - d) h rest)"

text \<open>
  Modelled from the spec: \<open>to_canonical(duration, domain)\<close> of section 4.1, as
  \<open>arm_absolute\<close> applies it. The body of \<open>CycInt_AddAbsoluteInterrupt\<close>, which fixes
  the operand type with which the macro \<open>INT_CONVERT_TO_INTERNAL\<close> is evaluated there,
  is in \<open>cycInt.c\<close>; the spec keeps ticks in 64 bits and gives the conversion as the
  duration times the domain's "fixed integer multiplier", "additionally left-shifted by
  the current frequency multiplier" for the MFP and the boosted-CPU domain. Ticks are
  mathematical integers here; the value is that of the header's macro wherever the
  macro's evaluation on \<open>int\<close> is defined and does not overflow.
\<close>

definition to_canonical :: "nat \<Rightarrow> int \<Rightarrow> int \<Rightarrow> int" where
  "to_canonical shift duration domain =
     (if domain = INT_CPU_CYCLE then duration * INT_CPU_TO_INTERNAL
      else if domain = INT_MFP_CYCLE then push_bit shift (duration * INT_MFP_TO_INTERNAL)
      else push_bit shift (duration * INT_CPU_TO_INTERNAL))"

text \<open>
  Modelled from the spec: \<open>arm_absolute(handler, duration, domain)\<close>, the body of
  \<open>CycInt_AddAbsoluteInterrupt(CycleTime, CycleType, Handler)\<close>, which "converts
  duration, inserts/replaces the handler's entry so it fires exactly that many canonical
  ticks from now", and fails on an invalid handler identity.
\<close>

definition CycInt_AddAbsoluteInterrupt ::
  "event_table \<Rightarrow> int \<Rightarrow> int \<Rightarrow> interrupt_id \<Rightarrow> cycint_error + event_table" where
  "CycInt_AddAbsoluteInterrupt t CycleTime CycleType Handler =
     (if Handler \<ge> MAX_INTERRUPTS then Inl Invalid_Handler
      else Inr (t\<lparr>chain :=
             insert_entry (to_canonical (nCpuFreqShift t) CycleTime CycleType) Handler
               (remove_entry Handler (chain t))\<rparr>))"

text \<open>
  Modelled from the spec: \<open>acknowledge()\<close>, the body of \<open>CycInt_AcknowledgeInterrupt\<close>,
  which clears the marker of the handler being dispatched.
\<close>

definition CycInt_AcknowledgeInterrupt :: "event_table \<Rightarrow> event_table" where
  "CycInt_AcknowledgeInterrupt t = t\<lparr>dispatching := None\<rparr>"

text \<open>
  Modelled from the spec: the loop of \<open>advance\<close>. \<open>carry\<close> is what is still to be added
  to the head's delta: minus the elapsed ticks at first, then the "leftover negative
  remainder" of the entry that has just fired, rolled "into the next entry's delta".
  "While the head's remaining ticks is \<open>\<le> 0\<close>" its handler is invoked; the result is the
  chain that remains and the handlers invoked, in the order of invocation.
\<close>

fun fire_due :: "int \<Rightarrow> chain \<Rightarrow> chain \<times> interrupt_id list" where
  "fire_due carry [] = ([], [])"
| "fire_due carry ((d, g) # rest) =
     (if d + carry \<le> 0 then
        (case fire_due (d + carry) rest of (c, fired) \<Rightarrow> (c, g # fired))
      else ((d + carry, g) # rest, []))"

text \<open>
  Modelled from the spec: \<open>advance(elapsed_ticks)\<close>, the dispatcher of \<open>cycInt.c\<close>. The
  bodies of the handlers belong to the device modules; here an invoked handler is
  recorded, marked as being dispatched and acknowledged, and arms nothing itself.
\<close>

definition advance :: "event_table \<Rightarrow> int \<Rightarrow> event_table \<times> interrupt_id list" where
  "advance t elapsed_ticks =
     (case fire_due (- elapsed_ticks) (chain t) of
        (c, fired) \<Rightarrow>
          (fold (\<lambda>h u. CycInt_AcknowledgeInterrupt (u\<lparr>dispatching := Some h\<rparr>)) fired
             (t\<lparr>chain := c\<rparr>),
           fired))"

text \<open>
  Modelled from the spec: the persisted state of \<open>cycInt.c\<close>, an "ordered record of
  \<open>{active, remaining_absolute_ticks}\<close> per handler identity (fixed count, fixed order =
  enumeration order) followed by the frequency multiplier", with the marker of the
  handler in flight.
\<close>

record snapshot =
  entries :: "(bool \<times> int) list"
  freq_shift :: nat
  in_flight :: "interrupt_id option"

text \<open>
  Modelled from the spec: what \<open>capture\<close> writes for one handler identity, its "active
  flag and its absolute remaining-tick value (deltas must be resolved to absolutes before
  writing)".
\<close>

definition snapshot_entry :: "event_table \<Rightarrow> interrupt_id \<Rightarrow> bool \<times> int" where
  "snapshot_entry t h =
     (case absolute_ticks t h of None \<Rightarrow> (False, 0) | Some a \<Rightarrow> (True, a))"

text \<open>
  Modelled from the spec: \<open>capture\<close>, the saving direction of
  \<open>CycInt_MemorySnapShot_Capture\<close>: every entry in the order of the enumeration, then
  the frequency multiplier and the marker.
\<close>

definition capture :: "event_table \<Rightarrow> snapshot" where
  "capture t =
     \<lparr> entries = map (snapshot_entry t) [0 ..< MAX_INTERRUPTS],
       freq_shift = nCpuFreqShift t,
       in_flight = dispatching t \<rparr>"

text \<open>
  Modelled from the spec: the active entries of a snapshot, each with its handler
  identity, which is its position.
\<close>

definition active_entries :: "(bool \<times> int) list \<Rightarrow> (int \<times> interrupt_id) list" where
  "active_entries es = map (\<lambda>h. (snd (es ! h), h)) (filter (\<lambda>h. fst (es ! h)) [0 ..< length es])"

text \<open>
  Modelled from the spec: \<open>restore\<close>, the loading direction of
  \<open>CycInt_MemorySnapShot_Capture\<close>. It rejects "a snapshot with mismatched structural
  size or negative ticks", and otherwise rebuilds "the delta chain from absolutes,
  re-sorted": by due-time, and by handler identity among equal due-times (the
  lexicographic order of the pairs).
\<close>

definition restore :: "snapshot \<Rightarrow> cycint_error + event_table" where
  "restore s =
     (if length (entries s) \<noteq> MAX_INTERRUPTS then Inl Size_Mismatch
      else if list_ex (\<lambda>(a, h). a < 0) (active_entries (entries s)) then Inl Negative_Ticks
      else Inr \<lparr> chain = deltas 0 (sort (active_entries (entries s))),
                 nCpuFreqShift = freq_shift s,
                 dispatching = in_flight s \<rparr>)"

text \<open>
  Modelled from the spec: the body of \<open>CycInt_MemorySnapShot_Capture(bSave)\<close>, declared
  with one flag for both directions. It writes the snapshot when \<open>bSave\<close> is set and
  reads it otherwise; a rejected snapshot leaves the table as it was.
\<close>

definition CycInt_MemorySnapShot_Capture ::
  "bool \<Rightarrow> event_table \<Rightarrow> snapshot \<Rightarrow> cycint_error + (event_table \<times> snapshot)" where
  "CycInt_MemorySnapShot_Capture bSave t s =
     (if bSave then Inr (t, capture t)
      else (case restore s of Inl e \<Rightarrow> Inl e | Inr t' \<Rightarrow> Inr (t', s)))"

text \<open>
  Modelled from the spec: the invariant of the data model. Resolved to absolutes, the
  chain is in ascending order of due-time, ties in ascending order of handler identity;
  there is "at most one armed instance per handler identity"; and every identity is a
  member of the enumeration.
\<close>

definition chain_ok :: "chain \<Rightarrow> bool" where
  "chain_ok c = (sorted (absolutes 0 c) \<and> distinct (map snd c) \<and> list_all (\<lambda>(d, h). h < MAX_INTERRUPTS) c)"

text \<open>
  Modelled from the spec: a table whose chain satisfies the invariant and in which no
  entry has negative remaining ticks, as is the case when the durations armed are not
  negative.
\<close>

definition table_ok :: "event_table \<Rightarrow> bool" where
  "table_ok t = (chain_ok (chain t) \<and> list_all (\<lambda>(a, h). 0 \<le> a) (absolutes 0 (chain t)))"

subsection \<open>Notions for stating and proving the properties\<close>

text \<open>An entry with absolute remaining ticks is due when these are at most zero.\<close>

definition due :: "int \<times> interrupt_id \<Rightarrow> bool" where
  "due e = (fst e \<le> 0)"

text \<open>The entry counted from \<open>k\<close> ticks later.\<close>

definition shift :: "int \<Rightarrow> int \<times> interrupt_id \<Rightarrow> int \<times> interrupt_id" where
  "shift k e = (fst e - k, snd e)"

text \<open>
  A call of \<open>arm_absolute\<close>, with the arguments of \<open>CycInt_AddAbsoluteInterrupt\<close>, or of
  \<open>advance\<close>.
\<close>

datatype call = Arm int int interrupt_id | Advance int

text \<open>
  The execution of a sequence of calls: the result is the final table and, for each call
  in turn, the list of the handlers it has invoked (empty for a call of
  \<open>arm_absolute\<close>), or the error of the first call that fails.
\<close>

fun run_calls :: "event_table \<Rightarrow> call list \<Rightarrow> cycint_error + (event_table \<times> interrupt_id list list)" where
  "run_calls t [] = Inr (t, [])"
| "run_calls t (Arm CycleTime CycleType Handler # cs) =
     (case CycInt_AddAbsoluteInterrupt t CycleTime CycleType Handler of
        Inl e \<Rightarrow> Inl e
      | Inr t1 \<Rightarrow>
          (case run_calls t1 cs of Inl e \<Rightarrow> Inl e | Inr (t2, tr) \<Rightarrow> Inr (t2, [] # tr)))"
| "run_calls t (Advance elapsed_ticks # cs) =
     (case advance t elapsed_ticks of
        (t1, fired) \<Rightarrow>
          (case run_calls t1 cs of Inl e \<Rightarrow> Inl e | Inr (t2, tr) \<Rightarrow> Inr (t2, fired # tr)))"

text \<open>
  The positions, counted from \<open>i\<close>, of the calls that have invoked \<open>h\<close>, in a list of
  per-call lists of invoked handlers; a position is repeated as often as the call has
  invoked \<open>h\<close>.
\<close>

fun fire_calls :: "interrupt_id \<Rightarrow> nat \<Rightarrow> interrupt_id list list \<Rightarrow> nat list" where
  "fire_calls h i [] = []"
| "fire_calls h i (fired # tr) = replicate (count_list fired h) i @ fire_calls h (Suc i) tr"

text \<open>
  The position, counted from \<open>i\<close>, of "the first \<open>advance\<close> call whose cumulative elapsed
  ticks" reach or exceed \<open>ticks\<close>, if there is one.
\<close>

fun first_due :: "int \<Rightarrow> nat \<Rightarrow> call list \<Rightarrow> nat option" where
  "first_due ticks i [] = None"
| "first_due ticks i (Arm CycleTime CycleType Handler # cs) = first_due ticks (Suc i) cs"
| "first_due ticks i (Advance elapsed_ticks # cs) =
     (if ticks \<le> elapsed_ticks then Some i else first_due (ticks - elapsed_ticks) (Suc i) cs)"

text \<open>The call arms the handler \<open>h\<close>.\<close>

fun arms :: "interrupt_id \<Rightarrow> call \<Rightarrow> bool" where
  "arms h (Arm CycleTime CycleType Handler) = (Handler = h)"
| "arms h (Advance elapsed_ticks) = False"

text \<open>The call names a member of the enumeration.\<close>

fun valid_call :: "call \<Rightarrow> bool" where
  "valid_call (Arm CycleTime CycleType Handler) = (Handler < MAX_INTERRUPTS)"
| "valid_call (Advance elapsed_ticks) = True"

text \<open>The call respects the converter's contract: its duration is not negative.\<close>

fun nonneg_call :: "call \<Rightarrow> bool" where
  "nonneg_call (Arm CycleTime CycleType Handler) = (0 \<le> CycleTime)"
| "nonneg_call (Advance elapsed_ticks) = True"

text \<open>The ticks that the \<open>advance\<close> calls of a sequence let elapse, in all.\<close>

fun elapsed :: "call list \<Rightarrow> int" where
  "elapsed [] = 0"
| "elapsed (Arm CycleTime CycleType Handler # cs) = elapsed cs"
| "elapsed (Advance elapsed_ticks # cs) = elapsed_ticks + elapsed cs"

section \<open>Properties of the conversions\<close>

subsection \<open>Integer division, and the arithmetic of a C int\<close>





lemmas cycle_consts =
  INT_CPU_CYCLE_def INT_MFP_CYCLE_def INT_CPU8_CYCLE_def
  INT_CPU_TO_INTERNAL_def INT_MFP_TO_INTERNAL_def

lemma sint_word_of_int_in_range:
  assumes "in_int_range k"
  shows "sint (word_of_int k :: c_int) = k"
  using assms by (simp add: in_int_range_def sint_sbintrunc' signed_take_bit_int_eq_self)



lemma mult_const_eq: "(d :: c_int) * word_of_int m = word_of_int (sint d * m)"
  by simp

lemma c_shl_word_of_int:
  assumes "0 \<le> s" and "s < 32"
  shows "c_shl (word_of_int k) s = Some (word_of_int (k * 2 ^ nat s))"
  using assms by (simp add: c_shl_def push_bit_eq_mult)



subsection \<open>From canonical ticks\<close>








subsection \<open>To canonical ticks and back\<close>

lemma to_internal_cpu:
  "INT_CONVERT_TO_INTERNAL s d INT_CPU_CYCLE = Some (word_of_int (sint d * 9600))"
  by (simp add: INT_CONVERT_TO_INTERNAL_def cycle_consts)

lemma to_internal_mfp:
  assumes "0 \<le> s" and "s < 32"
  shows "INT_CONVERT_TO_INTERNAL s d INT_MFP_CYCLE = Some (word_of_int (sint d * 31333 * 2 ^ nat s))"
  using c_shl_word_of_int [OF assms, of "sint d * 31333"]
  by (simp add: INT_CONVERT_TO_INTERNAL_def cycle_consts)

lemma to_internal_cpu8:
  assumes "0 \<le> s" and "s < 32"
  shows "INT_CONVERT_TO_INTERNAL s d INT_CPU8_CYCLE = Some (word_of_int (sint d * 9600 * 2 ^ nat s))"
  using c_shl_word_of_int [OF assms, of "sint d * 9600"]
  by (simp add: INT_CONVERT_TO_INTERNAL_def cycle_consts)












text \<open>
  Claim C7: an MFP duration of 10 units converts, with \<open>nCpuFreqShift = 1\<close>, to exactly
  twice the ticks it converts to with \<open>nCpuFreqShift = 0\<close> (626660 against 313330).
\<close>

theorem mfp_ten_units_doubles:
  "map_option sint (INT_CONVERT_TO_INTERNAL 1 10 INT_MFP_CYCLE)
     = Some (2 * 313330)
   \<and> map_option sint (INT_CONVERT_TO_INTERNAL 0 10 INT_MFP_CYCLE) = Some 313330
   \<and> map_option sint (INT_CONVERT_TO_INTERNAL 1 10 INT_MFP_CYCLE) = Some 626660
   \<and> map_option (\<lambda>w. 2 * w) (INT_CONVERT_TO_INTERNAL 0 10 INT_MFP_CYCLE)
       = INT_CONVERT_TO_INTERNAL 1 10 INT_MFP_CYCLE"
  by (simp add: INT_CONVERT_TO_INTERNAL_def cycle_consts c_shl_def)

text \<open>
  Claim C8: the two multipliers are the positive integers 9600 and 31333, one nominal-CPU
  cycle converts to exactly 9600 ticks and one MFP cycle (at \<open>nCpuFreqShift = 0\<close>) to
  exactly 31333 ticks, and the two multipliers have greatest common divisor 1.
\<close>

theorem multipliers_positive_coprime:
  "0 < INT_CPU_TO_INTERNAL \<and> 0 < INT_MFP_TO_INTERNAL
   \<and> INT_CPU_TO_INTERNAL = 9600 \<and> INT_MFP_TO_INTERNAL = 31333
   \<and> map_option sint (INT_CONVERT_TO_INTERNAL s 1 INT_CPU_CYCLE) = Some INT_CPU_TO_INTERNAL
   \<and> map_option sint (INT_CONVERT_TO_INTERNAL 0 1 INT_MFP_CYCLE) = Some INT_MFP_TO_INTERNAL
   \<and> gcd INT_CPU_TO_INTERNAL INT_MFP_TO_INTERNAL = 1"
proof -
  have "gcd (9600::int) 31333 = 1" by code_simp
  then show ?thesis
    by (simp add: INT_CONVERT_TO_INTERNAL_def cycle_consts c_shl_def)
qed

section \<open>Properties of the console filter\<close>

lemma length_map_0_31: "length map_0_31 = 32"
  by (simp add: map_0_31_def)

lemma length_map_128_255: "length map_128_255 = 128"
  by (simp add: map_128_255_def)

lemma uint8_range: "0 \<le> uint (v :: Uint8) \<and> uint v < 256"
  using uint_bounded [of v] by simp

lemma map_character_low:
  assumes "uint v < 32"
  shows "map_character v = Some [map_0_31 ! nat (uint v)]"
  using assms by (simp add: map_character_def array_read_def length_map_0_31)

lemma map_character_high:
  assumes "127 < uint v"
  shows "map_character v = Some [map_128_255 ! nat (uint v - 128)]"
  using assms uint8_range [of v]
  by (simp add: map_character_def array_read_def length_map_128_255)

lemma map_character_mid:
  assumes "32 \<le> uint v" and "uint v \<le> 127"
  shows "map_character v = Some [v]"
  using assms by (simp add: map_character_def)

text \<open>
  Claim C9: for every 8-bit value the mapper writes exactly one byte and reads no table
  outside its bounds (the model returns \<open>None\<close> on such a read): a value below 32 reads
  the 32-entry table \<open>map_0_31\<close> at the value, a value above 127 reads the 128-entry
  table \<open>map_128_255\<close> at the value minus 128, which lies between 0 and 127, and every
  other value is written unchanged.
\<close>

theorem map_character_one_byte:
  "length map_0_31 = 32 \<and> length map_128_255 = 128
   \<and> (\<exists>c. map_character v = Some [c])
   \<and> (uint v < 32 \<longrightarrow>
        array_read map_0_31 (uint v) = Some (map_0_31 ! nat (uint v))
        \<and> map_character v = Some [map_0_31 ! nat (uint v)])
   \<and> (127 < uint v \<longrightarrow>
        0 \<le> uint v - 128 \<and> uint v - 128 < 128
        \<and> array_read map_128_255 (uint v - 128) = Some (map_128_255 ! nat (uint v - 128))
        \<and> map_character v = Some [map_128_255 ! nat (uint v - 128)])
   \<and> (32 \<le> uint v \<and> uint v \<le> 127 \<longrightarrow> map_character v = Some [v])"
proof -
  have one: "\<exists>c. map_character v = Some [c]"
  proof (cases "uint v < 32")
    case True
    then show ?thesis by (simp add: map_character_low)
  next
    case False
    then show ?thesis
      by (cases "127 < uint v") (simp_all add: map_character_high map_character_mid)
  qed
  have low: "array_read map_0_31 (uint v) = Some (map_0_31 ! nat (uint v))" if "uint v < 32"
    using that by (simp add: array_read_def length_map_0_31)
  have high: "array_read map_128_255 (uint v - 128) = Some (map_128_255 ! nat (uint v - 128))"
    if "127 < uint v"
    using that uint8_range [of v] by (simp add: array_read_def length_map_128_255)
  show ?thesis
    using one low high uint8_range [of v]
    by (simp add: length_map_0_31 length_map_128_255 map_character_low map_character_high
        map_character_mid)
qed

text \<open>
  The mapper at a control character (tab), at an accented character (0x80, mapped to
  \<open>C\<close>) and at the letter \<open>A\<close>.
\<close>

theorem map_character_one_byte_witness:
  "map_character 0x09 = Some [0x09] \<and> map_character 0x80 = Some [0x43]
   \<and> map_character 0x41 = Some [0x41]"
proof -
  have a: "map_0_31 ! 9 = 0x09" by (simp add: map_0_31_def)
  have b: "map_128_255 ! 0 = 0x43" by (simp add: map_128_255_def)
  show ?thesis
    using map_character_one_byte [of "0x09"] map_character_one_byte [of "0x80"]
      map_character_one_byte [of "0x41"] a b
    by simp
qed

subsection \<open>The cursor-position sequence\<close>

lemma escape_end_position:
  assumes "escape_type s = ESCAPE_POSITION"
  shows "hpos_tos (fst (escape_end s v out)) = max 0 (min 79 (uint v - 32))"
  using assms by (simp add: escape_end_def Let_def max_def min_def)

text \<open>
  Claim C10: from any state outside an escape sequence, the four calls for ESC, \<open>Y\<close>, a
  row byte \<open>r\<close> and a column byte \<open>c\<close> end with \<open>hpos_tos\<close> equal to \<open>c - 32\<close>
  clamped to the range from 0 to 79, and the cursor movement of the last call uses that
  clamped value: the padding written and the new \<open>hpos_host\<close> (when the target lies to the
  right) and the \<open>need_nl\<close> flag (when it lies to the left) are computed from it.
\<close>

theorem cursor_position_clamped:
  assumes "escape_target s = 0"
  shows "\<exists>s'. vt52_run s [27, of_char CHR ''Y'', r, c]
             = Some (s', if hpos_host s < max 0 (min 79 (uint c - 32))
                         then pad (max 0 (min 79 (uint c - 32)) - hpos_host s) else [])
          \<and> hpos_tos s' = max 0 (min 79 (uint c - 32))
          \<and> 0 \<le> hpos_tos s' \<and> hpos_tos s' \<le> 79
          \<and> hpos_host s' = max (hpos_host s) (hpos_tos s')
          \<and> need_nl s' = (need_nl s \<or> hpos_tos s' < hpos_host s)
          \<and> escape_target s' = 0"
  using assms
  by (simp add: vt52_emu_def escape_end_def Let_def max_def min_def)

text \<open>
  The sequence ESC \<open>Y\<close> row 5 column 200 from the initial state: the column is clamped
  to 79 and 79 blanks are written.
\<close>

theorem cursor_position_clamped_witness:
  "escape_target vt52_init = 0
   \<and> map_option (hpos_tos \<circ> fst) (vt52_run vt52_init [27, of_char CHR ''Y'', 37, 232]) = Some 79
   \<and> map_option snd (vt52_run vt52_init [27, of_char CHR ''Y'', 37, 232]) = Some (pad 79)"
proof -
  have i: "escape_target vt52_init = 0" "hpos_host vt52_init = 0"
    by (simp_all add: vt52_init_def)
  show ?thesis
    using cursor_position_clamped [OF i(1), of 37 232] i by auto
qed

section \<open>Properties of the pending-event table\<close>

subsection \<open>The conversion that \<open>arm_absolute\<close> applies\<close>

lemma to_canonical_nonneg:
  assumes "0 \<le> d"
  shows "0 \<le> to_canonical s d ty"
  using assms by (simp add: to_canonical_def cycle_consts push_bit_int_def)

text \<open>
  Where the macro of the header is defined on an \<open>int\<close> duration and its result does
  not overflow, it computes \<open>to_canonical\<close>.
\<close>

lemma to_canonical_macro:
  assumes "0 \<le> s" and "s < 32" and "in_int_range (to_canonical (nat s) (sint d) ty)"
  shows "map_option sint (INT_CONVERT_TO_INTERNAL s d ty) = Some (to_canonical (nat s) (sint d) ty)"
proof -
  consider "ty = INT_CPU_CYCLE" | "ty = INT_MFP_CYCLE" | "ty \<noteq> INT_CPU_CYCLE" "ty \<noteq> INT_MFP_CYCLE"
    by blast
  then show ?thesis
  proof cases
    case 1
    have v: "to_canonical (nat s) (sint d) ty = sint d * 9600"
      using 1 by (simp add: to_canonical_def cycle_consts)
    then have r: "in_int_range (sint d * 9600)" using assms(3) by simp
    have "map_option sint (INT_CONVERT_TO_INTERNAL s d INT_CPU_CYCLE) = Some (sint d * 9600)"
      using sint_word_of_int_in_range [OF r] by (simp only: to_internal_cpu) simp
    then show ?thesis using 1 v by simp
  next
    case 2
    have v: "to_canonical (nat s) (sint d) ty = sint d * 31333 * 2 ^ nat s"
      using 2 by (simp add: to_canonical_def cycle_consts push_bit_int_def)
    then have r: "in_int_range (sint d * 31333 * 2 ^ nat s)" using assms(3) by simp
    have "map_option sint (INT_CONVERT_TO_INTERNAL s d INT_MFP_CYCLE)
        = Some (sint d * 31333 * 2 ^ nat s)"
      using sint_word_of_int_in_range [OF r] by (simp only: to_internal_mfp [OF assms(1,2)]) simp
    then show ?thesis using 2 v by simp
  next
    case 3
    have v: "to_canonical (nat s) (sint d) ty = sint d * 9600 * 2 ^ nat s"
      using 3 by (simp add: to_canonical_def cycle_consts push_bit_int_def)
    then have r: "in_int_range (sint d * 9600 * 2 ^ nat s)" using assms(3) by simp
    have e: "INT_CONVERT_TO_INTERNAL s d ty = INT_CONVERT_TO_INTERNAL s d INT_CPU8_CYCLE"
      using 3 by (simp add: INT_CONVERT_TO_INTERNAL_def cycle_consts)
    have "map_option sint (INT_CONVERT_TO_INTERNAL s d INT_CPU8_CYCLE)
        = Some (sint d * 9600 * 2 ^ nat s)"
      using sint_word_of_int_in_range [OF r] by (simp only: to_internal_cpu8 [OF assms(1,2)]) simp
    then show ?thesis using e v by simp
  qed
qed

subsection \<open>Deltas and absolutes\<close>

lemma deltas_absolutes: "deltas b (absolutes b c) = c"
  by (induction c arbitrary: b) auto

lemma absolutes_deltas: "absolutes b (deltas b xs) = xs"
  by (induction xs arbitrary: b) auto

lemma ids_absolutes: "map snd (absolutes b c) = map snd c"
  by (induction c arbitrary: b) auto

lemma absolutes_shift: "absolutes (b + x) c = map (\<lambda>(a, g). (a + x, g)) (absolutes b c)"
proof (induction c arbitrary: b)
  case Nil
  then show ?case by simp
next
  case (Cons e c)
  obtain d g where e: "e = (d, g)" by (cases e)
  have "absolutes (b + x + d) c = absolutes (b + d + x) c"
    by (simp add: add.commute add.left_commute)
  then show ?case using Cons.IH [of "b + d"] e by simp
qed

lemma absolutes_minus: "absolutes (- k) c = map (\<lambda>(a, g). (a - k, g)) (absolutes 0 c)"
  using absolutes_shift [of 0 "- k" c] by simp

subsection \<open>The chain operations, seen on the absolutes\<close>

lemma absolutes_insert_entry:
  assumes "h \<notin> snd ` set c"
  shows "absolutes b (insert_entry t h c) = insort (b + t, h) (absolutes b c)"
  using assms
proof (induction c arbitrary: b t)
  case Nil
  then show ?case by simp
next
  case (Cons e c)
  obtain d g where e: "e = (d, g)" by (cases e)
  from Cons.prems e have ne: "g \<noteq> h" and notin: "h \<notin> snd ` set c" by auto
  have le: "((b + t, h) \<le> (b + d, g)) = (t < d \<or> (t = d \<and> h < g))"
    using ne by (auto simp: less_eq_prod_def)
  show ?case
  proof (cases "t < d \<or> (t = d \<and> h < g)")
    case True
    then show ?thesis using e le by (auto simp: algebra_simps)
  next
    case False
    have "absolutes (b + d) (insert_entry (t - d) h c) = insort (b + d + (t - d), h) (absolutes (b + d) c)"
      using Cons.IH [OF notin] .
    then show ?thesis using False e le by (simp add: algebra_simps)
  qed
qed

lemma ids_set_absolutes: "snd ` set (absolutes b c) = snd ` set c"
proof -
  have "set (map snd (absolutes b c)) = set (map snd c)"
    by (simp only: ids_absolutes)
  then show ?thesis by simp
qed

lemma absolutes_remove_entry:
  assumes "distinct (map snd c)"
  shows "absolutes b (remove_entry h c) = filter (\<lambda>e. snd e \<noteq> h) (absolutes b c)"
  using assms
proof (induction h c arbitrary: b rule: remove_entry.induct)
  case (1 h)
  then show ?case by simp
next
  case (2 h d g)
  then show ?case by simp
next
  case (3 h d g d' g' rest)
  show ?case
  proof (cases "g = h")
    case True
    have "g' \<noteq> h" and "h \<notin> snd ` set rest" using 3(2) True by auto
    then have "\<forall>e \<in> set (absolutes (b + d + d') rest). snd e \<noteq> h"
      using ids_set_absolutes [of "b + d + d'" rest] by auto
    then have "filter (\<lambda>e. snd e \<noteq> h) (absolutes (b + d + d') rest) = absolutes (b + d + d') rest"
      by (simp add: filter_id_conv)
    then show ?thesis using True \<open>g' \<noteq> h\<close> by (simp add: algebra_simps)
  next
    case False
    have "distinct (map snd ((d', g') # rest))" using 3(2) by simp
    from 3(1) [OF False this, of "b + d"] False show ?thesis by simp
  qed
qed

lemma fire_due_absolutes:
  "fire_due carry c =
     (deltas 0 (dropWhile due (absolutes carry c)), map snd (takeWhile due (absolutes carry c)))"
proof (induction c arbitrary: carry)
  case Nil
  then show ?case by simp
next
  case (Cons e c)
  obtain d g where e: "e = (d, g)" by (cases e)
  show ?case
  proof (cases "d + carry \<le> 0")
    case True
    then show ?thesis using e Cons.IH [of "d + carry"] by (simp add: due_def add.commute)
  next
    case False
    then show ?thesis using e by (simp add: due_def add.commute deltas_absolutes)
  qed
qed

subsection \<open>Sorted lists of absolutes\<close>

lemma takeWhile_sorted_fst:
  fixes xs :: "(int \<times> interrupt_id) list"
  assumes "sorted xs"
  shows "takeWhile (\<lambda>e. fst e \<le> k) xs = filter (\<lambda>e. fst e \<le> k) xs"
  using assms
proof (induction xs)
  case Nil
  then show ?case by simp
next
  case (Cons x xs)
  show ?case
  proof (cases "fst x \<le> k")
    case True
    then show ?thesis using Cons by simp
  next
    case False
    have "\<forall>y \<in> set xs. \<not> fst y \<le> k"
    proof
      fix y assume "y \<in> set xs"
      then have "x \<le> y" using Cons.prems by simp
      then have "fst x \<le> fst y" by (auto simp: less_eq_prod_def)
      then show "\<not> fst y \<le> k" using False by simp
    qed
    then have "filter (\<lambda>e. fst e \<le> k) xs = []" by (simp add: filter_empty_conv)
    then show ?thesis using False by simp
  qed
qed

lemma dropWhile_sorted_fst:
  fixes xs :: "(int \<times> interrupt_id) list"
  assumes "sorted xs"
  shows "dropWhile (\<lambda>e. fst e \<le> k) xs = filter (\<lambda>e. k < fst e) xs"
  using assms
proof (induction xs)
  case Nil
  then show ?case by simp
next
  case (Cons x xs)
  show ?case
  proof (cases "fst x \<le> k")
    case True
    then show ?thesis using Cons by simp
  next
    case False
    have "\<forall>y \<in> set xs. k < fst y"
    proof
      fix y assume "y \<in> set xs"
      then have "x \<le> y" using Cons.prems by simp
      then have "fst x \<le> fst y" by (auto simp: less_eq_prod_def)
      then show "k < fst y" using False by simp
    qed
    then have "filter (\<lambda>e. k < fst e) xs = xs" by (simp add: filter_id_conv)
    then show ?thesis using False by simp
  qed
qed

lemma absolutes_minus_shift: "absolutes (- k) c = map (shift k) (absolutes 0 c)"
  by (simp add: absolutes_minus shift_def case_prod_beta)

lemma sorted_map_shift:
  fixes xs :: "(int \<times> interrupt_id) list"
  assumes "sorted xs"
  shows "sorted (map (shift k) xs)"
proof -
  have "sorted_wrt (\<lambda>x y. shift k x \<le> shift k y) xs"
    using assms by (rule sorted_wrt_mono_rel [rotated]) (auto simp: shift_def less_eq_prod_def)
  then show ?thesis by (simp add: sorted_map)
qed

lemma takeWhile_due_shift:
  "takeWhile due (map (shift k) xs) = map (shift k) (takeWhile (\<lambda>e. fst e \<le> k) xs)"
  by (induction xs) (auto simp: due_def shift_def)

lemma dropWhile_due_shift:
  "dropWhile due (map (shift k) xs) = map (shift k) (dropWhile (\<lambda>e. fst e \<le> k) xs)"
  by (induction xs) (auto simp: due_def shift_def)

text \<open>
  One call of the loop of \<open>advance\<close> on a sorted chain: the handlers invoked are those
  whose absolute remaining ticks are at most the elapsed ticks, in the order of the
  chain, and the entries that stay keep their due-time, now counted from the new now.
\<close>

lemma fire_due_sorted:
  assumes "sorted (absolutes 0 c)"
  shows "snd (fire_due (- k) c) = map snd (filter (\<lambda>e. fst e \<le> k) (absolutes 0 c))"
    and "absolutes 0 (fst (fire_due (- k) c)) = map (shift k) (filter (\<lambda>e. k < fst e) (absolutes 0 c))"
proof -
  show "snd (fire_due (- k) c) = map snd (filter (\<lambda>e. fst e \<le> k) (absolutes 0 c))"
    using assms
    by (simp add: fire_due_absolutes absolutes_minus_shift takeWhile_due_shift
        takeWhile_sorted_fst shift_def comp_def)
  show "absolutes 0 (fst (fire_due (- k) c)) = map (shift k) (filter (\<lambda>e. k < fst e) (absolutes 0 c))"
    using assms
    by (simp add: fire_due_absolutes absolutes_minus_shift dropWhile_due_shift
        dropWhile_sorted_fst absolutes_deltas)
qed

lemma absolutes_arm:
  assumes "distinct (map snd c)"
  shows "absolutes 0 (insert_entry t h (remove_entry h c))
           = insort (t, h) (filter (\<lambda>e. snd e \<noteq> h) (absolutes 0 c))"
proof -
  have r: "absolutes 0 (remove_entry h c) = filter (\<lambda>e. snd e \<noteq> h) (absolutes 0 c)"
    using absolutes_remove_entry [OF assms, of 0 h] .
  have "map snd (remove_entry h c) = map snd (filter (\<lambda>e. snd e \<noteq> h) (absolutes 0 c))"
    using r ids_absolutes [of 0 "remove_entry h c"] by simp
  then have "set (map snd (remove_entry h c)) = set (map snd (filter (\<lambda>e. snd e \<noteq> h) (absolutes 0 c)))"
    by simp
  then have "h \<notin> snd ` set (remove_entry h c)" by auto
  from absolutes_insert_entry [OF this, of 0 t] r show ?thesis by simp
qed

subsection \<open>The invariant is kept\<close>

lemma chain_ok_absolutes:
  "chain_ok c \<longleftrightarrow>
     sorted (absolutes 0 c) \<and> distinct (map snd (absolutes 0 c))
     \<and> (\<forall>e \<in> set (absolutes 0 c). snd e < MAX_INTERRUPTS)"
proof -
  have "(\<forall>e \<in> set c. snd e < MAX_INTERRUPTS) = (\<forall>e \<in> set (absolutes 0 c). snd e < MAX_INTERRUPTS)"
    using ids_set_absolutes [of 0 c] by (metis (no_types, lifting) image_iff)
  then show ?thesis
    by (simp add: chain_ok_def ids_absolutes list_all_iff case_prod_beta)
qed

lemma distinct_ids_insort:
  fixes xs :: "(int \<times> interrupt_id) list"
  assumes "distinct (map snd xs)" and "h \<notin> snd ` set xs"
  shows "distinct (map snd (insort (t, h) xs))"
  using assms by (induction xs) (auto simp: set_insort_key image_iff)

lemma sorted_filter_id:
  fixes xs :: "(int \<times> interrupt_id) list"
  assumes "sorted xs"
  shows "sorted (filter P xs)"
  using assms sorted_filter [of "\<lambda>x. x" xs P] by simp

lemma distinct_ids_unique:
  fixes xs :: "(int \<times> interrupt_id) list"
  assumes "distinct (map snd xs)" and "(r, h) \<in> set xs" and "(a, h) \<in> set xs"
  shows "a = r"
  using assms inj_onD [of snd "set xs" "(r, h)" "(a, h)"] by (simp add: distinct_map)

lemma chain_ok_arm:
  assumes "chain_ok c" and "h < MAX_INTERRUPTS"
  shows "chain_ok (insert_entry t h (remove_entry h c))"
proof -
  let ?xs = "absolutes 0 c"
  let ?ys = "filter (\<lambda>e. snd e \<noteq> h) ?xs"
  from assms(1) have ok: "sorted ?xs" "distinct (map snd ?xs)"
    "\<forall>e \<in> set ?xs. snd e < MAX_INTERRUPTS"
    by (simp_all add: chain_ok_absolutes)
  have d: "distinct (map snd c)" using assms(1) by (simp add: chain_ok_def)
  have a: "absolutes 0 (insert_entry t h (remove_entry h c)) = insort (t, h) ?ys"
    by (rule absolutes_arm [OF d])
  have "sorted ?ys" using ok(1) by (rule sorted_filter_id)
  then have s: "sorted (insort (t, h) ?ys)" by (simp add: sorted_insort)
  have "distinct (map snd ?ys)" using ok(2) by (rule distinct_map_filter)
  moreover have "h \<notin> snd ` set ?ys" by auto
  ultimately have i: "distinct (map snd (insort (t, h) ?ys))" by (rule distinct_ids_insort)
  have m: "\<forall>e \<in> set (insort (t, h) ?ys). snd e < MAX_INTERRUPTS"
    using ok(3) assms(2) by (auto simp: set_insort_key)
  show ?thesis using a s i m by (simp add: chain_ok_absolutes)
qed

lemma chain_ok_fire_due:
  assumes "chain_ok c"
  shows "chain_ok (fst (fire_due (- k) c))"
proof -
  let ?xs = "absolutes 0 c"
  let ?ys = "filter (\<lambda>e. k < fst e) ?xs"
  from assms have ok: "sorted ?xs" "distinct (map snd ?xs)"
    "\<forall>e \<in> set ?xs. snd e < MAX_INTERRUPTS"
    by (simp_all add: chain_ok_absolutes)
  have a: "absolutes 0 (fst (fire_due (- k) c)) = map (shift k) ?ys"
    by (rule fire_due_sorted(2) [OF ok(1)])
  have "sorted ?ys" using ok(1) by (rule sorted_filter_id)
  then have s: "sorted (map (shift k) ?ys)" by (rule sorted_map_shift)
  have ids: "map snd (map (shift k) ?ys) = map snd ?ys" by (simp add: shift_def comp_def)
  have i: "distinct (map snd (map (shift k) ?ys))"
    using distinct_map_filter [OF ok(2)] by (simp only: ids)
  have m: "\<forall>e \<in> set (map (shift k) ?ys). snd e < MAX_INTERRUPTS"
    using ok(3) by (auto simp: shift_def)
  show ?thesis using s i m by (simp only: chain_ok_absolutes a)
qed

subsection \<open>The remaining ticks of a handler\<close>

lemma lookup_ticks_None_iff: "lookup_ticks xs h = None \<longleftrightarrow> h \<notin> snd ` set xs"
  by (induction xs h rule: lookup_ticks.induct) (auto simp: image_iff)

lemma lookup_ticks_Some_iff:
  assumes "distinct (map snd xs)"
  shows "lookup_ticks xs h = Some a \<longleftrightarrow> (a, h) \<in> set xs"
  using assms by (induction xs h rule: lookup_ticks.induct) (auto simp: image_iff)

lemma option_eq_by_Some:
  fixes x y :: "'a option"
  assumes "\<And>a. x = Some a \<longleftrightarrow> y = Some a"
  shows "x = y"
proof (cases x)
  case None
  show ?thesis
  proof (cases y)
    case None
    with \<open>x = None\<close> show ?thesis by simp
  next
    case (Some b)
    with assms [of b] None show ?thesis by simp
  qed
next
  case (Some a)
  with assms [of a] show ?thesis by simp
qed

lemma chain_fold_acknowledge:
  "chain (fold (\<lambda>h u. CycInt_AcknowledgeInterrupt (u\<lparr>dispatching := Some h\<rparr>)) fired u) = chain u"
  "nCpuFreqShift (fold (\<lambda>h u. CycInt_AcknowledgeInterrupt (u\<lparr>dispatching := Some h\<rparr>)) fired u)
     = nCpuFreqShift u"
  by (induction fired arbitrary: u) (simp_all add: CycInt_AcknowledgeInterrupt_def)

lemma advance_parts:
  "chain (fst (advance t k)) = fst (fire_due (- k) (chain t))"
  "nCpuFreqShift (fst (advance t k)) = nCpuFreqShift t"
  "snd (advance t k) = snd (fire_due (- k) (chain t))"
  by (simp_all add: advance_def chain_fold_acknowledge split: prod.split)

lemma arm_parts:
  assumes "h < MAX_INTERRUPTS"
  shows "CycInt_AddAbsoluteInterrupt t d ty h =
           Inr (t\<lparr>chain := insert_entry (to_canonical (nCpuFreqShift t) d ty) h
                            (remove_entry h (chain t))\<rparr>)"
  using assms by (simp add: CycInt_AddAbsoluteInterrupt_def)

lemma remaining_after_insert_same:
  assumes "chain_ok c"
  shows "lookup_ticks (absolutes 0 (insert_entry T h (remove_entry h c))) h = Some T"
proof -
  let ?ys = "filter (\<lambda>e. snd e \<noteq> h) (absolutes 0 c)"
  have d: "distinct (map snd c)" using assms by (simp add: chain_ok_def)
  have d': "distinct (map snd (absolutes 0 c))" using assms by (simp add: chain_ok_absolutes)
  have "distinct (map snd ?ys)" using d' by (rule distinct_map_filter)
  moreover have "h \<notin> snd ` set ?ys" by auto
  ultimately have "distinct (map snd (insort (T, h) ?ys))" by (rule distinct_ids_insort)
  then show ?thesis
    by (simp add: absolutes_arm [OF d] lookup_ticks_Some_iff set_insort_key)
qed

lemma remaining_after_insert_other:
  assumes "chain_ok c" and "g \<noteq> h"
  shows "lookup_ticks (absolutes 0 (insert_entry T g (remove_entry g c))) h
           = lookup_ticks (absolutes 0 c) h"
proof (rule option_eq_by_Some)
  fix a
  let ?ys = "filter (\<lambda>e. snd e \<noteq> g) (absolutes 0 c)"
  have d: "distinct (map snd c)" using assms(1) by (simp add: chain_ok_def)
  have d': "distinct (map snd (absolutes 0 c))" using assms(1) by (simp add: chain_ok_absolutes)
  have "distinct (map snd ?ys)" using d' by (rule distinct_map_filter)
  moreover have "g \<notin> snd ` set ?ys" by auto
  ultimately have "distinct (map snd (insort (T, g) ?ys))" by (rule distinct_ids_insort)
  then show "lookup_ticks (absolutes 0 (insert_entry T g (remove_entry g c))) h = Some a
        \<longleftrightarrow> lookup_ticks (absolutes 0 c) h = Some a"
    using assms(2) d'
    by (auto simp: absolutes_arm [OF d] lookup_ticks_Some_iff set_insort_key)
qed

lemma remaining_after_fire_due:
  assumes "chain_ok c"
  shows "lookup_ticks (absolutes 0 (fst (fire_due (- k) c))) h =
           (case lookup_ticks (absolutes 0 c) h of
              None \<Rightarrow> None
            | Some r \<Rightarrow> if r \<le> k then None else Some (r - k))"
proof (rule option_eq_by_Some)
  fix a
  let ?xs = "absolutes 0 c"
  let ?ys = "map (shift k) (filter (\<lambda>e. k < fst e) ?xs)"
  from assms have ok: "sorted ?xs" "distinct (map snd ?xs)" by (simp_all add: chain_ok_absolutes)
  have a: "absolutes 0 (fst (fire_due (- k) c)) = ?ys" by (rule fire_due_sorted(2) [OF ok(1)])
  have ids: "map snd ?ys = map snd (filter (\<lambda>e. k < fst e) ?xs)" by (simp add: shift_def comp_def)
  have dy: "distinct (map snd ?ys)" using distinct_map_filter [OF ok(2)] by (simp only: ids)
  have l: "lookup_ticks ?ys h = Some a \<longleftrightarrow> (a + k, h) \<in> set ?xs \<and> 0 < a"
    using dy by (auto simp: lookup_ticks_Some_iff shift_def image_iff)
  show "lookup_ticks (absolutes 0 (fst (fire_due (- k) c))) h = Some a \<longleftrightarrow>
        (case lookup_ticks ?xs h of None \<Rightarrow> None
         | Some r \<Rightarrow> if r \<le> k then None else Some (r - k)) = Some a"
  proof (cases "lookup_ticks ?xs h")
    case None
    then have "h \<notin> snd ` set ?xs" by (simp add: lookup_ticks_None_iff)
    then have "(a + k, h) \<notin> set ?xs" by (auto simp: image_iff)
    then show ?thesis using None l a by simp
  next
    case (Some r)
    then have r: "(r, h) \<in> set ?xs" using ok(2) by (simp add: lookup_ticks_Some_iff)
    have u: "(a + k, h) \<in> set ?xs \<longleftrightarrow> a + k = r"
      using r distinct_ids_unique [OF ok(2) r, of "a + k"] by auto
    show ?thesis using Some l a u by auto
  qed
qed

lemma count_list_distinct:
  assumes "distinct ys"
  shows "count_list ys h = (if h \<in> set ys then 1 else 0)"
  using assms by (induction ys) auto

lemma fired_count:
  assumes "chain_ok c"
  shows "count_list (snd (fire_due (- k) c)) h =
           (case lookup_ticks (absolutes 0 c) h of
              None \<Rightarrow> 0
            | Some r \<Rightarrow> if r \<le> k then 1 else 0)"
proof -
  let ?xs = "absolutes 0 c"
  let ?f = "map snd (filter (\<lambda>e. fst e \<le> k) ?xs)"
  from assms have ok: "sorted ?xs" "distinct (map snd ?xs)" by (simp_all add: chain_ok_absolutes)
  have f: "snd (fire_due (- k) c) = ?f" by (rule fire_due_sorted(1) [OF ok(1)])
  have df: "distinct ?f" using ok(2) by (rule distinct_map_filter)
  have m: "h \<in> set ?f \<longleftrightarrow> (\<exists>a. (a, h) \<in> set ?xs \<and> a \<le> k)" by (auto simp: image_iff)
  show ?thesis
  proof (cases "lookup_ticks ?xs h")
    case None
    then have "h \<notin> snd ` set ?xs" by (simp add: lookup_ticks_None_iff)
    then have "h \<notin> set ?f" by (auto simp: image_iff)
    then show ?thesis using None f by simp
  next
    case (Some r)
    then have r: "(r, h) \<in> set ?xs" using ok(2) by (simp add: lookup_ticks_Some_iff)
    have u: "(a, h) \<in> set ?xs \<longleftrightarrow> a = r" for a
      using r distinct_ids_unique [OF ok(2) r, of a] by auto
    have "h \<in> set ?f \<longleftrightarrow> r \<le> k" using m u by simp
    then show ?thesis using Some f count_list_distinct [OF df, of h] by simp
  qed
qed

subsection \<open>What \<open>first_due\<close> computes\<close>

text \<open>
  \<open>first_due r i cs = Some j\<close> singles out an \<open>advance\<close> call of \<open>cs\<close>, at position
  \<open>j\<close> counted from \<open>i\<close>: with it the elapsed ticks reach \<open>r\<close>, and with no earlier
  \<open>advance\<close> call they do. \<open>first_due r i cs = None\<close> means that no \<open>advance\<close> call of
  \<open>cs\<close> reaches \<open>r\<close>.
\<close>

lemma first_due_Some:
  assumes "first_due r i cs = Some j"
  shows "\<exists>pre k post. cs = pre @ Advance k # post \<and> j = i + length pre
           \<and> r \<le> elapsed pre + k
           \<and> (\<forall>pre' k' post'. pre = pre' @ Advance k' # post' \<longrightarrow> elapsed pre' + k' < r)"
  using assms
proof (induction cs arbitrary: r i)
  case Nil
  then show ?case by simp
next
  case (Cons c cs)
  show ?case
  proof (cases c)
    case (Arm d ty g)
    with Cons.prems have "first_due r (Suc i) cs = Some j" by simp
    from Cons.IH [OF this] obtain pre k post where
      p: "cs = pre @ Advance k # post" "j = Suc i + length pre" "r \<le> elapsed pre + k"
         "\<forall>pre' k' post'. pre = pre' @ Advance k' # post' \<longrightarrow> elapsed pre' + k' < r"
      by blast
    have "\<forall>pre' k' post'. c # pre = pre' @ Advance k' # post' \<longrightarrow> elapsed pre' + k' < r"
    proof (intro allI impI)
      fix pre' k' post'
      assume e: "c # pre = pre' @ Advance k' # post'"
      with Arm obtain pre'' where "pre' = c # pre''" "pre = pre'' @ Advance k' # post'"
        by (cases pre') auto
      with p(4) Arm show "elapsed pre' + k' < r" by auto
    qed
    moreover have "c # cs = (c # pre) @ Advance k # post" using p(1) by simp
    moreover have "j = i + length (c # pre)" using p(2) by simp
    moreover have "r \<le> elapsed (c # pre) + k" using p(3) Arm by simp
    ultimately show ?thesis by blast
  next
    case (Advance k0)
    show ?thesis
    proof (cases "r \<le> k0")
      case True
      with Cons.prems Advance have "j = i" by simp
      then have "c # cs = [] @ Advance k0 # cs \<and> j = i + length ([] :: call list)
          \<and> r \<le> elapsed [] + k0
          \<and> (\<forall>pre' k' post'. [] = pre' @ Advance k' # post' \<longrightarrow> elapsed pre' + k' < r)"
        using True Advance by simp
      then show ?thesis by blast
    next
      case False
      with Cons.prems Advance have "first_due (r - k0) (Suc i) cs = Some j" by simp
      from Cons.IH [OF this] obtain pre k post where
        p: "cs = pre @ Advance k # post" "j = Suc i + length pre" "r - k0 \<le> elapsed pre + k"
           "\<forall>pre' k' post'. pre = pre' @ Advance k' # post' \<longrightarrow> elapsed pre' + k' < r - k0"
        by blast
      have "\<forall>pre' k' post'. c # pre = pre' @ Advance k' # post' \<longrightarrow> elapsed pre' + k' < r"
      proof (intro allI impI)
        fix pre' k' post'
        assume e: "c # pre = pre' @ Advance k' # post'"
        show "elapsed pre' + k' < r"
        proof (cases pre')
          case Nil
          with e Advance have "k' = k0" by simp
          with Nil False show ?thesis by simp
        next
          case (Cons c' pre'')
          with e have "c' = c" "pre = pre'' @ Advance k' # post'" by simp_all
          with p(4) have "elapsed pre'' + k' < r - k0" by blast
          with Cons \<open>c' = c\<close> Advance show ?thesis by simp
        qed
      qed
      moreover have "c # cs = (c # pre) @ Advance k # post" using p(1) by simp
      moreover have "j = i + length (c # pre)" using p(2) by simp
      moreover have "r \<le> elapsed (c # pre) + k" using p(3) Advance by simp
      ultimately show ?thesis by blast
    qed
  qed
qed

lemma first_due_None:
  assumes "first_due r i cs = None" and "cs = pre @ Advance k # post"
  shows "elapsed pre + k < r"
  using assms
proof (induction cs arbitrary: r i pre)
  case Nil
  then show ?case by simp
next
  case (Cons c cs)
  show ?case
  proof (cases pre)
    case Nil
    with Cons.prems show ?thesis by (simp split: if_splits)
  next
    case (Cons c' pre')
    with Cons.prems(2) have c: "c' = c" and cs: "cs = pre' @ Advance k # post" by simp_all
    show ?thesis
    proof (cases c)
      case (Arm d ty g)
      with Cons.prems(1) have "first_due r (Suc i) cs = None" by simp
      from Cons.IH [OF this cs] Cons c Arm show ?thesis by simp
    next
      case (Advance k0)
      with Cons.prems(1) have "first_due (r - k0) (Suc i) cs = None"
        by (simp split: if_splits)
      from Cons.IH [OF this cs] Cons c Advance show ?thesis by simp
    qed
  qed
qed

subsection \<open>One call of \<open>arm_absolute\<close> or \<open>advance\<close>\<close>

lemma chain_ok_after_arm:
  assumes "chain_ok (chain t)" and "h < MAX_INTERRUPTS"
  shows "\<exists>t'. CycInt_AddAbsoluteInterrupt t d ty h = Inr t' \<and> chain_ok (chain t')
           \<and> nCpuFreqShift t' = nCpuFreqShift t
           \<and> absolute_ticks t' h = Some (to_canonical (nCpuFreqShift t) d ty)
           \<and> (\<forall>g. g \<noteq> h \<longrightarrow> absolute_ticks t' g = absolute_ticks t g)"
  using assms
  by (simp add: arm_parts absolute_ticks_def chain_ok_arm remaining_after_insert_same
      remaining_after_insert_other)

lemma chain_ok_after_advance:
  assumes "chain_ok (chain t)"
  shows "chain_ok (chain (fst (advance t k)))"
  using assms by (simp add: advance_parts chain_ok_fire_due)

lemma remaining_after_advance:
  assumes "chain_ok (chain t)"
  shows "absolute_ticks (fst (advance t k)) h =
           (case absolute_ticks t h of
              None \<Rightarrow> None
            | Some r \<Rightarrow> if r \<le> k then None else Some (r - k))"
  using assms by (simp add: absolute_ticks_def advance_parts remaining_after_fire_due)

lemma count_fired_advance:
  assumes "chain_ok (chain t)"
  shows "count_list (snd (advance t k)) h =
           (case absolute_ticks t h of
              None \<Rightarrow> 0
            | Some r \<Rightarrow> if r \<le> k then 1 else 0)"
  using assms by (simp add: absolute_ticks_def advance_parts fired_count)

subsection \<open>Sequences of calls\<close>

lemma run_calls_Advance:
  "run_calls t (Advance k # cs) =
     (case run_calls (fst (advance t k)) cs of
        Inl e \<Rightarrow> Inl e
      | Inr (t2, tr) \<Rightarrow> Inr (t2, snd (advance t k) # tr))"
  by (cases "advance t k") (simp split: sum.splits)

lemma run_calls_append:
  assumes "run_calls t pre = Inr (t1, tr1)" and "run_calls t1 post = Inr (t2, tr2)"
  shows "run_calls t (pre @ post) = Inr (t2, tr1 @ tr2)"
  using assms
proof (induction pre arbitrary: t tr1)
  case Nil
  then show ?case by simp
next
  case (Cons c pre)
  show ?case
  proof (cases c)
    case (Arm d ty g)
    from Cons.prems(1) Arm obtain u tr where
      u: "CycInt_AddAbsoluteInterrupt t d ty g = Inr u" and
      r: "run_calls u pre = Inr (t1, tr)" and tr: "tr1 = [] # tr"
      by (auto split: sum.splits)
    from Cons.IH [OF r Cons.prems(2)] u tr Arm show ?thesis by simp
  next
    case (Advance k)
    from Cons.prems(1) Advance obtain tr where
      r: "run_calls (fst (advance t k)) pre = Inr (t1, tr)" and
      tr: "tr1 = snd (advance t k) # tr"
      by (auto simp: run_calls_Advance simp del: run_calls.simps(3) split: sum.splits)
    from Cons.IH [OF r Cons.prems(2)] tr Advance show ?thesis
      by (simp add: run_calls_Advance del: run_calls.simps(3))
  qed
qed

lemma run_calls_ok:
  assumes "chain_ok (chain t)" and "list_all valid_call cs"
  shows "\<exists>t' tr. run_calls t cs = Inr (t', tr) \<and> length tr = length cs
           \<and> chain_ok (chain t') \<and> nCpuFreqShift t' = nCpuFreqShift t"
  using assms
proof (induction cs arbitrary: t)
  case Nil
  then show ?case by simp
next
  case (Cons c cs)
  show ?case
  proof (cases c)
    case (Arm d ty g)
    with Cons.prems have g: "g < MAX_INTERRUPTS" and v: "list_all valid_call cs" by simp_all
    from chain_ok_after_arm [OF Cons.prems(1) g, of d ty] obtain u where
      u: "CycInt_AddAbsoluteInterrupt t d ty g = Inr u" "chain_ok (chain u)"
         "nCpuFreqShift u = nCpuFreqShift t"
      by blast
    from Cons.IH [OF u(2) v] u Arm show ?thesis by auto
  next
    case (Advance k)
    with Cons.prems have v: "list_all valid_call cs" by simp
    have u: "chain_ok (chain (fst (advance t k)))"
      by (rule chain_ok_after_advance [OF Cons.prems(1)])
    from Cons.IH [OF u v] Advance show ?thesis
      by (auto simp: advance_parts run_calls_Advance simp del: run_calls.simps(3))
  qed
qed

text \<open>
  The calls at which a handler is invoked, as long as it is not armed again: none when it
  is not armed, and otherwise only the first \<open>advance\<close> that covers its remaining ticks.
\<close>

lemma run_calls_fire:
  assumes "chain_ok (chain t)" and "list_all valid_call cs" and "\<not> list_ex (arms h) cs"
  shows "\<exists>t' tr. run_calls t cs = Inr (t', tr) \<and>
           fire_calls h i tr =
             (case absolute_ticks t h of
                None \<Rightarrow> []
              | Some r \<Rightarrow> (case first_due r i cs of None \<Rightarrow> [] | Some j \<Rightarrow> [j]))"
  using assms
proof (induction cs arbitrary: t i)
  case Nil
  then show ?case by (simp split: option.splits)
next
  case (Cons c cs)
  show ?case
  proof (cases c)
    case (Arm d ty g)
    with Cons.prems have g: "g < MAX_INTERRUPTS" "g \<noteq> h" and v: "list_all valid_call cs"
      and n: "\<not> list_ex (arms h) cs"
      by auto
    from chain_ok_after_arm [OF Cons.prems(1) g(1), of d ty] g(2) obtain u where
      u: "CycInt_AddAbsoluteInterrupt t d ty g = Inr u" "chain_ok (chain u)"
         "absolute_ticks u h = absolute_ticks t h"
      by metis
    from Cons.IH [OF u(2) v n, of "Suc i"] obtain t' tr where
      r: "run_calls u cs = Inr (t', tr)" and
      f: "fire_calls h (Suc i) tr =
            (case absolute_ticks u h of None \<Rightarrow> []
             | Some r \<Rightarrow> (case first_due r (Suc i) cs of None \<Rightarrow> [] | Some j \<Rightarrow> [j]))"
      by blast
    have "run_calls t (c # cs) = Inr (t', [] # tr)" using Arm u(1) r by simp
    moreover have "fire_calls h i ([] # tr) =
        (case absolute_ticks t h of None \<Rightarrow> []
         | Some r \<Rightarrow> (case first_due r i (c # cs) of None \<Rightarrow> [] | Some j \<Rightarrow> [j]))"
      using f u(3) Arm by (simp split: option.splits)
    ultimately show ?thesis by blast
  next
    case (Advance k)
    with Cons.prems have v: "list_all valid_call cs" and n: "\<not> list_ex (arms h) cs" by auto
    let ?u = "fst (advance t k)"
    let ?fired = "snd (advance t k)"
    have u: "chain_ok (chain ?u)" by (rule chain_ok_after_advance [OF Cons.prems(1)])
    from Cons.IH [OF u v n, of "Suc i"] obtain t' tr where
      r: "run_calls ?u cs = Inr (t', tr)" and
      f: "fire_calls h (Suc i) tr =
            (case absolute_ticks ?u h of None \<Rightarrow> []
             | Some r \<Rightarrow> (case first_due r (Suc i) cs of None \<Rightarrow> [] | Some j \<Rightarrow> [j]))"
      by blast
    have "run_calls t (c # cs) = Inr (t', ?fired # tr)"
      using Advance r by (simp add: run_calls_Advance del: run_calls.simps(3))
    moreover have "fire_calls h i (?fired # tr) =
        (case absolute_ticks t h of None \<Rightarrow> []
         | Some r \<Rightarrow> (case first_due r i (c # cs) of None \<Rightarrow> [] | Some j \<Rightarrow> [j]))"
      using f Advance remaining_after_advance [OF Cons.prems(1), of k h]
        count_fired_advance [OF Cons.prems(1), of k h]
      by (simp split: option.splits)
    ultimately show ?thesis by blast
  qed
qed

text \<open>
  Claim C4, as the model has it. Take any sequence of valid calls that starts from a
  table satisfying the invariant, and in it a call that arms \<open>h\<close>, followed by calls
  \<open>cs\<close> among which \<open>h\<close> is not armed again (\<open>pre\<close> are the calls before it). Then
  the sequence runs without error and, from the arming call on, \<open>h\<close> is invoked at most
  once: exactly once at the first \<open>advance\<close> call of \<open>cs\<close> whose cumulative elapsed ticks
  since the arming reach or exceed the armed ticks, at no earlier and at no later call,
  and not at all when no call of \<open>cs\<close> reaches them. (An occurrence that is armed again
  before it is due is replaced, and is not covered: see the counterexample below.)
\<close>

theorem armed_handler_fires_once:
  assumes "chain_ok (chain t)" and "list_all valid_call pre" and "h < MAX_INTERRUPTS"
    and "list_all valid_call cs" and "\<not> list_ex (arms h) cs"
  shows "\<exists>t' tr. run_calls t (pre @ Arm d ty h # cs) = Inr (t', tr)
           \<and> length tr = length pre + 1 + length cs
           \<and> fire_calls h (length pre) (drop (length pre) tr) =
               (case first_due (to_canonical (nCpuFreqShift t) d ty)
                       (Suc (length pre)) cs of
                  None \<Rightarrow> []
                | Some j \<Rightarrow> [j])"
proof -
  from run_calls_ok [OF assms(1,2)] obtain t1 tr1 where
    p: "run_calls t pre = Inr (t1, tr1)" "length tr1 = length pre" "chain_ok (chain t1)"
       "nCpuFreqShift t1 = nCpuFreqShift t"
    by blast
  from chain_ok_after_arm [OF p(3) assms(3), of d ty] obtain t2 where
    a: "CycInt_AddAbsoluteInterrupt t1 d ty h = Inr t2" "chain_ok (chain t2)"
       "absolute_ticks t2 h = Some (to_canonical (nCpuFreqShift t1) d ty)"
    by blast
  from run_calls_ok [OF a(2) assms(4)] obtain t3 tr3 where
    c: "run_calls t2 cs = Inr (t3, tr3)" "length tr3 = length cs"
    by blast
  from run_calls_fire [OF a(2) assms(4,5), of "Suc (length pre)"] c(1) a(3) p(4) have
    f: "fire_calls h (Suc (length pre)) tr3 =
          (case first_due (to_canonical (nCpuFreqShift t) d ty)
                  (Suc (length pre)) cs of
             None \<Rightarrow> [] | Some j \<Rightarrow> [j])"
    by simp
  have "run_calls t1 (Arm d ty h # cs) = Inr (t3, [] # tr3)" using a(1) c(1) by simp
  from run_calls_append [OF p(1) this]
  have "run_calls t (pre @ Arm d ty h # cs) = Inr (t3, tr1 @ [] # tr3)" .
  moreover have "length (tr1 @ [] # tr3) = length pre + 1 + length cs"
    using p(2) c(2) by simp
  moreover have "fire_calls h (length pre) (drop (length pre) (tr1 @ [] # tr3)) =
      (case first_due (to_canonical (nCpuFreqShift t) d ty)
              (Suc (length pre)) cs of
         None \<Rightarrow> [] | Some j \<Rightarrow> [j])"
    using p(2) f by simp
  ultimately show ?thesis by blast
qed

text \<open>
  The scenario of the specification, in nominal-CPU cycles: B is armed for 250 cycles and
  then A for 100; \<open>advance\<close> by the ticks of 100 cycles invokes A, \<open>advance\<close> by the
  ticks of 200 more cycles invokes B, and A is invoked at call 2 only.
\<close>

theorem armed_handler_fires_once_witness:
  "chain_ok [] \<and>
   run_calls \<lparr>chain = [], nCpuFreqShift = 0, dispatching = None\<rparr>
     [Arm 250 INT_CPU_CYCLE INTERRUPT_VIDEO_HBL, Arm 100 INT_CPU_CYCLE INTERRUPT_VIDEO_VBL,
      Advance 960000, Advance 1920000]
     = Inr (\<lparr>chain = [], nCpuFreqShift = 0, dispatching = None\<rparr>,
            [[], [], [INTERRUPT_VIDEO_VBL], [INTERRUPT_VIDEO_HBL]])
   \<and> fire_calls INTERRUPT_VIDEO_VBL 1 [[], [INTERRUPT_VIDEO_VBL], [INTERRUPT_VIDEO_HBL]] = [2]
   \<and> first_due (to_canonical 0 100 INT_CPU_CYCLE) 2 [Advance 960000, Advance 1920000]
       = Some 2"
proof -
  let ?t = "\<lparr>chain = [], nCpuFreqShift = 0, dispatching = None\<rparr>"
  have ok: "chain_ok (chain ?t)" by (simp add: chain_ok_def)
  have v1: "list_all valid_call [Arm 250 INT_CPU_CYCLE INTERRUPT_VIDEO_HBL]"
    by (simp add: INTERRUPT_VIDEO_HBL_def MAX_INTERRUPTS_def)
  have h: "INTERRUPT_VIDEO_VBL < MAX_INTERRUPTS"
    by (simp add: INTERRUPT_VIDEO_VBL_def MAX_INTERRUPTS_def)
  have v2: "list_all valid_call [Advance 960000, Advance 1920000]" by simp
  have n: "\<not> list_ex (arms INTERRUPT_VIDEO_VBL) [Advance 960000, Advance 1920000]" by simp
  show ?thesis
    using armed_handler_fires_once [OF ok v1 h v2 n, of 100 INT_CPU_CYCLE] ok
    by (simp add: CycInt_AddAbsoluteInterrupt_def advance_def CycInt_AcknowledgeInterrupt_def
        to_canonical_def cycle_consts INTERRUPT_VIDEO_VBL_def INTERRUPT_VIDEO_HBL_def
        MAX_INTERRUPTS_def)
qed

text \<open>
  Claim C4 as first stated speaks of every sequence and of every armed occurrence. Arming
  the same handler for 100 cycles (call 0) and then for 300 (call 1) replaces the first
  occurrence: the \<open>advance\<close> by the ticks of 100 cycles (call 2), the first whose
  cumulative elapsed ticks reach the duration armed first, invokes nothing, and the two
  occurrences lead to one invocation, at the second \<open>advance\<close> (call 3).
\<close>

theorem rearmed_handler_counterexample:
  "run_calls \<lparr>chain = [], nCpuFreqShift = 0, dispatching = None\<rparr>
     [Arm 100 INT_CPU_CYCLE INTERRUPT_VIDEO_VBL, Arm 300 INT_CPU_CYCLE INTERRUPT_VIDEO_VBL,
      Advance 960000, Advance 1920000]
     = Inr (\<lparr>chain = [], nCpuFreqShift = 0, dispatching = None\<rparr>,
            [[], [], [], [INTERRUPT_VIDEO_VBL]])
   \<and> fire_calls INTERRUPT_VIDEO_VBL 0 [[], [], [], [INTERRUPT_VIDEO_VBL]] = [3]
   \<and> first_due (to_canonical 0 100 INT_CPU_CYCLE) 1
         [Arm 300 INT_CPU_CYCLE INTERRUPT_VIDEO_VBL, Advance 960000, Advance 1920000] = Some 2"
  by (simp add: CycInt_AddAbsoluteInterrupt_def advance_def CycInt_AcknowledgeInterrupt_def
      to_canonical_def cycle_consts INTERRUPT_VIDEO_VBL_def MAX_INTERRUPTS_def)

subsection \<open>Events that are due at the same time\<close>

lemma sorted_before:
  fixes xs :: "(int \<times> interrupt_id) list"
  assumes "sorted xs" and "x \<in> set xs" and "y \<in> set xs" and "x < y"
  shows "\<exists>as bs cs. xs = as @ x # bs @ y # cs"
proof -
  from assms(2) obtain as rest where xs: "xs = as @ x # rest"
    by (auto dest: split_list)
  have "y \<notin> set as"
  proof
    assume "y \<in> set as"
    then have "y \<le> x" using assms(1) xs by (simp add: sorted_append)
    then show False using assms(4) by simp
  qed
  then have "y \<in> set rest" using assms(3,4) xs by auto
  then obtain bs cs where "rest = bs @ y # cs" by (auto dest: split_list)
  then show ?thesis using xs by blast
qed

text \<open>
  Two handlers \<open>h1 < h2\<close> that are in the table with the same absolute remaining ticks
  \<open>a\<close>: a call of \<open>advance\<close> that covers \<open>a\<close> invokes both, each once, \<open>h1\<close> before
  \<open>h2\<close>; a call that does not cover \<open>a\<close> invokes neither and leaves both with the same
  remaining ticks.
\<close>

lemma same_due_time_fire_order:
  assumes "chain_ok (chain t)"
    and "absolute_ticks t h1 = Some a" and "absolute_ticks t h2 = Some a" and "h1 < h2"
  shows "(a \<le> k \<longrightarrow>
            (\<exists>xs ys zs. snd (advance t k) = xs @ h1 # ys @ h2 # zs)
            \<and> distinct (snd (advance t k)))
       \<and> (k < a \<longrightarrow>
            h1 \<notin> set (snd (advance t k)) \<and> h2 \<notin> set (snd (advance t k))
            \<and> absolute_ticks (fst (advance t k)) h1 = Some (a - k)
            \<and> absolute_ticks (fst (advance t k)) h2 = Some (a - k))"
proof -
  let ?xs = "absolutes 0 (chain t)"
  let ?P = "\<lambda>e :: int \<times> interrupt_id. fst e \<le> k"
  from assms(1) have ok: "sorted ?xs" "distinct (map snd ?xs)"
    by (simp_all add: chain_ok_absolutes)
  have f: "snd (advance t k) = map snd (filter ?P ?xs)"
    using fire_due_sorted(1) [OF ok(1), of k] by (simp add: advance_parts)
  have m1: "(a, h1) \<in> set ?xs" and m2: "(a, h2) \<in> set ?xs"
    using assms(2,3) ok(2) by (simp_all add: absolute_ticks_def lookup_ticks_Some_iff)
  have lt: "(a, h1) < (a, h2)" using assms(4) by (simp add: less_prod_def)
  from sorted_before [OF ok(1) m1 m2 lt] obtain as bs cs where
    xs: "?xs = as @ (a, h1) # bs @ (a, h2) # cs"
    by blast
  have d: "distinct (snd (advance t k))"
    using distinct_map_filter [OF ok(2), of ?P] f by simp
  have due: "a \<le> k \<longrightarrow> (\<exists>xs ys zs. snd (advance t k) = xs @ h1 # ys @ h2 # zs)"
  proof
    assume "a \<le> k"
    then have "snd (advance t k) =
        map snd (filter ?P as) @ h1 # map snd (filter ?P bs) @ h2 # map snd (filter ?P cs)"
      using f xs by simp
    then show "\<exists>xs ys zs. snd (advance t k) = xs @ h1 # ys @ h2 # zs" by blast
  qed
  have c1: "count_list (snd (advance t k)) h1 = (if a \<le> k then 1 else 0)"
    using count_fired_advance [OF assms(1), of k h1] assms(2) by simp
  have c2: "count_list (snd (advance t k)) h2 = (if a \<le> k then 1 else 0)"
    using count_fired_advance [OF assms(1), of k h2] assms(3) by simp
  have r1: "absolute_ticks (fst (advance t k)) h1 = (if a \<le> k then None else Some (a - k))"
    using remaining_after_advance [OF assms(1), of k h1] assms(2) by simp
  have r2: "absolute_ticks (fst (advance t k)) h2 = (if a \<le> k then None else Some (a - k))"
    using remaining_after_advance [OF assms(1), of k h2] assms(3) by simp
  have late: "k < a \<longrightarrow>
      h1 \<notin> set (snd (advance t k)) \<and> h2 \<notin> set (snd (advance t k))
      \<and> absolute_ticks (fst (advance t k)) h1 = Some (a - k)
      \<and> absolute_ticks (fst (advance t k)) h2 = Some (a - k)"
    using c1 c2 r1 r2 by (simp add: count_list_0_iff [symmetric])
  show ?thesis using due d late by blast
qed

text \<open>Two handlers armed one after the other, and then a call of \<open>advance\<close>.\<close>

lemma arm_arm_advance:
  assumes "chain_ok (chain t)" and "ha < MAX_INTERRUPTS" and "hb < MAX_INTERRUPTS" and "ha \<noteq> hb"
  shows "\<exists>u. run_calls t [Arm da tya ha, Arm db tyb hb, Advance k]
               = Inr (fst (advance u k), [[], [], snd (advance u k)])
           \<and> chain_ok (chain u)
           \<and> absolute_ticks u ha = Some (to_canonical (nCpuFreqShift t) da tya)
           \<and> absolute_ticks u hb = Some (to_canonical (nCpuFreqShift t) db tyb)"
proof -
  from chain_ok_after_arm [OF assms(1,2), of da tya] obtain t1 where
    t1: "CycInt_AddAbsoluteInterrupt t da tya ha = Inr t1" "chain_ok (chain t1)"
        "nCpuFreqShift t1 = nCpuFreqShift t"
        "absolute_ticks t1 ha = Some (to_canonical (nCpuFreqShift t) da tya)"
    by blast
  from chain_ok_after_arm [OF t1(2) assms(3), of db tyb] assms(4) obtain u where
    u: "CycInt_AddAbsoluteInterrupt t1 db tyb hb = Inr u" "chain_ok (chain u)"
       "absolute_ticks u hb = Some (to_canonical (nCpuFreqShift t1) db tyb)"
       "absolute_ticks u ha = absolute_ticks t1 ha"
    by metis
  have "run_calls t [Arm da tya ha, Arm db tyb hb, Advance k]
      = Inr (fst (advance u k), [[], [], snd (advance u k)])"
    using t1(1) u(1) by (simp add: run_calls_Advance del: run_calls.simps(3))
  then show ?thesis using u(2,3,4) t1(3,4) by auto
qed

text \<open>
  Two handlers armed at different moments: the first, then a call of \<open>advance\<close> that does
  not reach it, then the second, and then a call of \<open>advance\<close>.
\<close>

lemma arm_advance_arm_advance:
  assumes "chain_ok (chain t)" and "ha < MAX_INTERRUPTS" and "hb < MAX_INTERRUPTS" and "ha \<noteq> hb"
    and "j < to_canonical (nCpuFreqShift t) da tya"
  shows "\<exists>u f. run_calls t [Arm da tya ha, Advance j, Arm db tyb hb, Advance k]
               = Inr (fst (advance u k), [[], f, [], snd (advance u k)])
           \<and> chain_ok (chain u)
           \<and> absolute_ticks u ha = Some (to_canonical (nCpuFreqShift t) da tya - j)
           \<and> absolute_ticks u hb = Some (to_canonical (nCpuFreqShift t) db tyb)"
proof -
  from chain_ok_after_arm [OF assms(1,2), of da tya] obtain t1 where
    t1: "CycInt_AddAbsoluteInterrupt t da tya ha = Inr t1" "chain_ok (chain t1)"
        "nCpuFreqShift t1 = nCpuFreqShift t"
        "absolute_ticks t1 ha = Some (to_canonical (nCpuFreqShift t) da tya)"
    by blast
  let ?t2 = "fst (advance t1 j)"
  have t2: "chain_ok (chain ?t2)" "nCpuFreqShift ?t2 = nCpuFreqShift t"
    "absolute_ticks ?t2 ha = Some (to_canonical (nCpuFreqShift t) da tya - j)"
    using chain_ok_after_advance [OF t1(2), of j] remaining_after_advance [OF t1(2), of j ha]
      t1(3,4) assms(5)
    by (simp_all add: advance_parts)
  from chain_ok_after_arm [OF t2(1) assms(3), of db tyb] assms(4) obtain u where
    u: "CycInt_AddAbsoluteInterrupt ?t2 db tyb hb = Inr u" "chain_ok (chain u)"
       "absolute_ticks u hb = Some (to_canonical (nCpuFreqShift ?t2) db tyb)"
       "absolute_ticks u ha = absolute_ticks ?t2 ha"
    by metis
  have "run_calls t [Arm da tya ha, Advance j, Arm db tyb hb, Advance k]
      = Inr (fst (advance u k), [[], snd (advance t1 j), [], snd (advance u k)])"
    using t1(1) u(1) by (simp add: run_calls_Advance del: run_calls.simps(3))
  then show ?thesis using u(2,3,4) t2(2,3) by auto
qed

text \<open>
  Claim C5: two handlers \<open>h1 < h2\<close> (in the order of the enumeration) are armed, from
  any table satisfying the invariant, for durations that convert to the same ticks \<open>a\<close>.
  Whichever of the two is armed first, a following call of \<open>advance\<close> that covers \<open>a\<close>
  invokes both, each once, \<open>h1\<close> before \<open>h2\<close>, and a call that does not cover \<open>a\<close>
  invokes neither. The same holds when the two are armed at different moments for the
  same due-time: the first for \<open>a + j\<close> ticks (with \<open>a > 0\<close>), then \<open>advance\<close> by \<open>j\<close>,
  then the second for \<open>a\<close> ticks. The result is a function of the calls alone.
\<close>

theorem simultaneous_events_fire_in_identity_order:
  assumes "chain_ok (chain t)" and "h1 < h2" and "h2 < MAX_INTERRUPTS"
    and "to_canonical (nCpuFreqShift t) d1 ty1 = a"
    and "to_canonical (nCpuFreqShift t) d2 ty2 = a"
  shows "(\<exists>t' fired.
            run_calls t [Arm d1 ty1 h1, Arm d2 ty2 h2, Advance k] = Inr (t', [[], [], fired])
            \<and> (a \<le> k \<longrightarrow> (\<exists>xs ys zs. fired = xs @ h1 # ys @ h2 # zs) \<and> distinct fired)
            \<and> (k < a \<longrightarrow> h1 \<notin> set fired \<and> h2 \<notin> set fired))
       \<and> (\<exists>t' fired.
            run_calls t [Arm d2 ty2 h2, Arm d1 ty1 h1, Advance k] = Inr (t', [[], [], fired])
            \<and> (a \<le> k \<longrightarrow> (\<exists>xs ys zs. fired = xs @ h1 # ys @ h2 # zs) \<and> distinct fired)
            \<and> (k < a \<longrightarrow> h1 \<notin> set fired \<and> h2 \<notin> set fired))
       \<and> (0 < a \<and> to_canonical (nCpuFreqShift t) e tye = a + j \<longrightarrow>
            (\<exists>t' f fired.
               run_calls t [Arm e tye h1, Advance j, Arm d2 ty2 h2, Advance k]
                 = Inr (t', [[], f, [], fired])
               \<and> (a \<le> k \<longrightarrow> (\<exists>xs ys zs. fired = xs @ h1 # ys @ h2 # zs) \<and> distinct fired)
               \<and> (k < a \<longrightarrow> h1 \<notin> set fired \<and> h2 \<notin> set fired))
            \<and> (\<exists>t' f fired.
               run_calls t [Arm e tye h2, Advance j, Arm d1 ty1 h1, Advance k]
                 = Inr (t', [[], f, [], fired])
               \<and> (a \<le> k \<longrightarrow> (\<exists>xs ys zs. fired = xs @ h1 # ys @ h2 # zs) \<and> distinct fired)
               \<and> (k < a \<longrightarrow> h1 \<notin> set fired \<and> h2 \<notin> set fired)))"
proof -
  have v: "h1 < MAX_INTERRUPTS" "h1 \<noteq> h2" "h2 \<noteq> h1" using assms(2,3) by simp_all
  have order: "(a \<le> k \<longrightarrow> (\<exists>xs ys zs. snd (advance u k) = xs @ h1 # ys @ h2 # zs)
                  \<and> distinct (snd (advance u k)))
             \<and> (k < a \<longrightarrow> h1 \<notin> set (snd (advance u k)) \<and> h2 \<notin> set (snd (advance u k)))"
    if "chain_ok (chain u)" "absolute_ticks u h1 = Some a" "absolute_ticks u h2 = Some a" for u
    using same_due_time_fire_order [OF that assms(2), of k] by blast
  have first: "\<exists>t' fired.
      run_calls t [Arm d1 ty1 h1, Arm d2 ty2 h2, Advance k] = Inr (t', [[], [], fired])
      \<and> (a \<le> k \<longrightarrow> (\<exists>xs ys zs. fired = xs @ h1 # ys @ h2 # zs) \<and> distinct fired)
      \<and> (k < a \<longrightarrow> h1 \<notin> set fired \<and> h2 \<notin> set fired)"
  proof -
    from arm_arm_advance [OF assms(1) v(1) assms(3) v(2), of d1 ty1 d2 ty2 k] assms(4,5)
    obtain u where u: "run_calls t [Arm d1 ty1 h1, Arm d2 ty2 h2, Advance k]
        = Inr (fst (advance u k), [[], [], snd (advance u k)])"
      "chain_ok (chain u)" "absolute_ticks u h1 = Some a" "absolute_ticks u h2 = Some a"
      by auto
    from order [OF u(2,3,4)] u(1) show ?thesis by blast
  qed
  have second: "\<exists>t' fired.
      run_calls t [Arm d2 ty2 h2, Arm d1 ty1 h1, Advance k] = Inr (t', [[], [], fired])
      \<and> (a \<le> k \<longrightarrow> (\<exists>xs ys zs. fired = xs @ h1 # ys @ h2 # zs) \<and> distinct fired)
      \<and> (k < a \<longrightarrow> h1 \<notin> set fired \<and> h2 \<notin> set fired)"
  proof -
    from arm_arm_advance [OF assms(1,3) v(1) v(3), of d2 ty2 d1 ty1 k] assms(4,5)
    obtain u where u: "run_calls t [Arm d2 ty2 h2, Arm d1 ty1 h1, Advance k]
        = Inr (fst (advance u k), [[], [], snd (advance u k)])"
      "chain_ok (chain u)" "absolute_ticks u h1 = Some a" "absolute_ticks u h2 = Some a"
      by auto
    from order [OF u(2,3,4)] u(1) show ?thesis by blast
  qed
  have third: "\<exists>t' f fired.
      run_calls t [Arm e tye h1, Advance j, Arm d2 ty2 h2, Advance k] = Inr (t', [[], f, [], fired])
      \<and> (a \<le> k \<longrightarrow> (\<exists>xs ys zs. fired = xs @ h1 # ys @ h2 # zs) \<and> distinct fired)
      \<and> (k < a \<longrightarrow> h1 \<notin> set fired \<and> h2 \<notin> set fired)"
    if "0 < a" "to_canonical (nCpuFreqShift t) e tye = a + j"
  proof -
    have "j < to_canonical (nCpuFreqShift t) e tye" using that by simp
    from arm_advance_arm_advance [OF assms(1) v(1) assms(3) v(2) this, of d2 ty2 k] that(2) assms(5)
    obtain u f where u: "run_calls t [Arm e tye h1, Advance j, Arm d2 ty2 h2, Advance k]
        = Inr (fst (advance u k), [[], f, [], snd (advance u k)])"
      "chain_ok (chain u)" "absolute_ticks u h1 = Some a" "absolute_ticks u h2 = Some a"
      by auto
    from order [OF u(2,3,4)] u(1) show ?thesis by blast
  qed
  have fourth: "\<exists>t' f fired.
      run_calls t [Arm e tye h2, Advance j, Arm d1 ty1 h1, Advance k] = Inr (t', [[], f, [], fired])
      \<and> (a \<le> k \<longrightarrow> (\<exists>xs ys zs. fired = xs @ h1 # ys @ h2 # zs) \<and> distinct fired)
      \<and> (k < a \<longrightarrow> h1 \<notin> set fired \<and> h2 \<notin> set fired)"
    if "0 < a" "to_canonical (nCpuFreqShift t) e tye = a + j"
  proof -
    have "j < to_canonical (nCpuFreqShift t) e tye" using that by simp
    from arm_advance_arm_advance [OF assms(1,3) v(1) v(3) this, of d1 ty1 k] that(2) assms(4)
    obtain u f where u: "run_calls t [Arm e tye h2, Advance j, Arm d1 ty1 h1, Advance k]
        = Inr (fst (advance u k), [[], f, [], snd (advance u k)])"
      "chain_ok (chain u)" "absolute_ticks u h1 = Some a" "absolute_ticks u h2 = Some a"
      by auto
    from order [OF u(2,3,4)] u(1) show ?thesis by blast
  qed
  show ?thesis using first second third fourth by blast
qed

text \<open>
  The end-of-line event (3) and the blitter (19), both for 100 cycles: armed in either
  order, the \<open>advance\<close> that covers them invokes the end-of-line handler first; so it
  does when the blitter is armed for 150 cycles, the ticks of 50 cycles elapse, and the
  end-of-line event is then armed for 100 cycles.
\<close>

theorem simultaneous_events_fire_in_identity_order_witness:
  "run_calls \<lparr>chain = [], nCpuFreqShift = 0, dispatching = None\<rparr>
     [Arm 100 INT_CPU_CYCLE INTERRUPT_VIDEO_ENDLINE, Arm 100 INT_CPU_CYCLE INTERRUPT_BLITTER,
      Advance 960000]
     = Inr (\<lparr>chain = [], nCpuFreqShift = 0, dispatching = None\<rparr>,
            [[], [], [INTERRUPT_VIDEO_ENDLINE, INTERRUPT_BLITTER]])
   \<and> run_calls \<lparr>chain = [], nCpuFreqShift = 0, dispatching = None\<rparr>
     [Arm 100 INT_CPU_CYCLE INTERRUPT_BLITTER, Arm 100 INT_CPU_CYCLE INTERRUPT_VIDEO_ENDLINE,
      Advance 960000]
     = Inr (\<lparr>chain = [], nCpuFreqShift = 0, dispatching = None\<rparr>,
            [[], [], [INTERRUPT_VIDEO_ENDLINE, INTERRUPT_BLITTER]])
   \<and> run_calls \<lparr>chain = [], nCpuFreqShift = 0, dispatching = None\<rparr>
     [Arm 150 INT_CPU_CYCLE INTERRUPT_BLITTER, Advance 480000,
      Arm 100 INT_CPU_CYCLE INTERRUPT_VIDEO_ENDLINE, Advance 960000]
     = Inr (\<lparr>chain = [], nCpuFreqShift = 0, dispatching = None\<rparr>,
            [[], [], [], [INTERRUPT_VIDEO_ENDLINE, INTERRUPT_BLITTER]])
   \<and> INTERRUPT_VIDEO_ENDLINE < INTERRUPT_BLITTER"
proof -
  let ?t = "\<lparr>chain = [], nCpuFreqShift = 0, dispatching = None\<rparr>"
  have ok: "chain_ok (chain ?t)" by (simp add: chain_ok_def)
  have lt: "INTERRUPT_VIDEO_ENDLINE < INTERRUPT_BLITTER"
    by (simp add: INTERRUPT_VIDEO_ENDLINE_def INTERRUPT_BLITTER_def)
  have v: "INTERRUPT_BLITTER < MAX_INTERRUPTS"
    by (simp add: INTERRUPT_BLITTER_def MAX_INTERRUPTS_def)
  have a: "to_canonical (nCpuFreqShift ?t) 100 INT_CPU_CYCLE = 960000"
    by (simp add: to_canonical_def cycle_consts)
  show ?thesis
    using simultaneous_events_fire_in_identity_order [OF ok lt v a a, of 960000 150 INT_CPU_CYCLE 480000] lt
    by (simp add: CycInt_AddAbsoluteInterrupt_def advance_def CycInt_AcknowledgeInterrupt_def
        to_canonical_def cycle_consts INTERRUPT_VIDEO_ENDLINE_def INTERRUPT_BLITTER_def
        MAX_INTERRUPTS_def)
qed

subsection \<open>Snapshots\<close>

lemma active_entries_capture:
  "active_entries (map (snapshot_entry t) [0 ..< n]) =
     map (\<lambda>h. (snd (snapshot_entry t h), h)) (filter (\<lambda>h. fst (snapshot_entry t h)) [0 ..< n])"
proof -
  let ?es = "map (snapshot_entry t) [0 ..< n]"
  have nth: "?es ! h = snapshot_entry t h" if "h \<in> set [0 ..< n]" for h
    using that by simp
  have "filter (\<lambda>h. fst (?es ! h)) [0 ..< n] = filter (\<lambda>h. fst (snapshot_entry t h)) [0 ..< n]"
    by (rule filter_cong [OF refl]) (simp only: nth)
  moreover have "map (\<lambda>h. (snd (?es ! h), h)) (filter (\<lambda>h. fst (snapshot_entry t h)) [0 ..< n])
      = map (\<lambda>h. (snd (snapshot_entry t h), h)) (filter (\<lambda>h. fst (snapshot_entry t h)) [0 ..< n])"
    by (rule map_cong [OF refl]) (simp add: nth)
  ultimately show ?thesis by (simp add: active_entries_def)
qed

lemma set_active_entries_capture:
  assumes "chain_ok (chain t)"
  shows "set (active_entries (map (snapshot_entry t) [0 ..< MAX_INTERRUPTS]))
           = set (absolutes 0 (chain t))"
proof -
  let ?xs = "absolutes 0 (chain t)"
  from assms have ok: "distinct (map snd ?xs)" "\<forall>e \<in> set ?xs. snd e < MAX_INTERRUPTS"
    by (simp_all add: chain_ok_absolutes)
  have "(a, h) \<in> set (active_entries (map (snapshot_entry t) [0 ..< MAX_INTERRUPTS]))
        \<longleftrightarrow> (a, h) \<in> set ?xs" for a h
  proof -
    have e: "fst (snapshot_entry t h) \<and> snd (snapshot_entry t h) = a
             \<longleftrightarrow> absolute_ticks t h = Some a"
      by (simp add: snapshot_entry_def split: option.splits)
    have "(a, h) \<in> set (active_entries (map (snapshot_entry t) [0 ..< MAX_INTERRUPTS]))
          \<longleftrightarrow> h < MAX_INTERRUPTS \<and> fst (snapshot_entry t h) \<and> snd (snapshot_entry t h) = a"
      by (auto simp: active_entries_capture)
    also have "\<dots> \<longleftrightarrow> h < MAX_INTERRUPTS \<and> absolute_ticks t h = Some a"
      using e by blast
    also have "\<dots> \<longleftrightarrow> h < MAX_INTERRUPTS \<and> (a, h) \<in> set ?xs"
      using ok(1) by (simp add: absolute_ticks_def lookup_ticks_Some_iff)
    also have "\<dots> \<longleftrightarrow> (a, h) \<in> set ?xs"
      using ok(2) by auto
    finally show ?thesis .
  qed
  then show ?thesis by auto
qed

lemma distinct_active_entries_capture:
  "distinct (active_entries (map (snapshot_entry t) [0 ..< n]))"
proof -
  have "distinct (map snd (active_entries (map (snapshot_entry t) [0 ..< n])))"
    by (simp add: active_entries_capture comp_def)
  then show ?thesis by (rule distinct_map [THEN iffD1, THEN conjunct1])
qed

lemma sort_active_entries_capture:
  assumes "chain_ok (chain t)"
  shows "sort (active_entries (map (snapshot_entry t) [0 ..< MAX_INTERRUPTS]))
           = absolutes 0 (chain t)"
proof -
  let ?xs = "absolutes 0 (chain t)"
  let ?L = "active_entries (map (snapshot_entry t) [0 ..< MAX_INTERRUPTS])"
  from assms have ok: "sorted ?xs" "distinct (map snd ?xs)" by (simp_all add: chain_ok_absolutes)
  have "distinct ?xs" using ok(2) by (simp add: distinct_map)
  moreover have "sorted (sort ?L)" using sorted_sort_key [of "\<lambda>x. x" ?L] by simp
  moreover have "distinct (sort ?L)" by (simp add: distinct_active_entries_capture)
  moreover have "set (sort ?L) = set ?xs"
    using set_active_entries_capture [OF assms] by simp
  ultimately show ?thesis using ok(1) by (intro sorted_distinct_set_unique)
qed

lemma restore_capture:
  assumes "table_ok t"
  shows "restore (capture t) = Inr t"
proof -
  let ?L = "active_entries (map (snapshot_entry t) [0 ..< MAX_INTERRUPTS])"
  from assms have ok: "chain_ok (chain t)" and nn: "\<forall>e \<in> set (absolutes 0 (chain t)). 0 \<le> fst e"
    by (auto simp: table_ok_def list_all_iff)
  have "\<not> list_ex (\<lambda>(a, h). a < 0) ?L"
    using nn set_active_entries_capture [OF ok] by (auto simp: list_ex_iff)
  then show ?thesis
    by (simp add: restore_def capture_def sort_active_entries_capture [OF ok] deltas_absolutes)
qed

text \<open>
  Claim C3, as the model has it: for a table that satisfies the invariant and holds no
  negative remaining ticks (as every table reached by valid calls with durations that
  are not negative does), restoring the snapshot just captured is accepted and gives back
  the same table: the handler at the head, the remaining ticks of every handler
  (absolute, and as stored in its slot), the frequency multiplier, and so the result of
  any later \<open>advance\<close>, are those at capture time. The same holds through
  \<open>CycInt_MemorySnapShot_Capture\<close>, saving from \<open>t\<close> and loading over any table
  \<open>u\<close>.
\<close>

theorem snapshot_round_trip:
  assumes "table_ok t"
  shows "\<exists>t'. restore (capture t) = Inr t'
          \<and> t' = t
          \<and> CycInt_GetActiveInt t' = CycInt_GetActiveInt t
          \<and> (\<forall>h. absolute_ticks t' h = absolute_ticks t h)
          \<and> (\<forall>h. slot t' h = slot t h)
          \<and> nCpuFreqShift t' = nCpuFreqShift t
          \<and> (\<forall>k. advance t' k = advance t k)
          \<and> CycInt_MemorySnapShot_Capture True t s = Inr (t, capture t)
          \<and> CycInt_MemorySnapShot_Capture False u (capture t) = Inr (t', capture t)"
  using restore_capture [OF assms] by (simp add: CycInt_MemorySnapShot_Capture_def)

text \<open>
  The table with the end-of-line event at 960000 ticks, the blitter at the same time and
  timer A 480000 ticks later: the snapshot lists the absolutes 960000, 960000 and 1440000
  in the order of the enumeration, and restoring it rebuilds the chain.
\<close>

theorem snapshot_round_trip_witness:
  "table_ok \<lparr>chain = [(960000, INTERRUPT_VIDEO_ENDLINE), (0, INTERRUPT_BLITTER),
                      (480000, INTERRUPT_MFP_MAIN_TIMERA)],
             nCpuFreqShift = 1, dispatching = None\<rparr>
   \<and> restore (capture \<lparr>chain = [(960000, INTERRUPT_VIDEO_ENDLINE), (0, INTERRUPT_BLITTER),
                               (480000, INTERRUPT_MFP_MAIN_TIMERA)],
                      nCpuFreqShift = 1, dispatching = None\<rparr>)
       = Inr \<lparr>chain = [(960000, INTERRUPT_VIDEO_ENDLINE), (0, INTERRUPT_BLITTER),
                       (480000, INTERRUPT_MFP_MAIN_TIMERA)],
              nCpuFreqShift = 1, dispatching = None\<rparr>
   \<and> snapshot_entry \<lparr>chain = [(960000, INTERRUPT_VIDEO_ENDLINE), (0, INTERRUPT_BLITTER),
                               (480000, INTERRUPT_MFP_MAIN_TIMERA)],
                      nCpuFreqShift = 1, dispatching = None\<rparr> INTERRUPT_MFP_MAIN_TIMERA
       = (True, 1440000)"
proof -
  let ?t = "\<lparr>chain = [(960000, INTERRUPT_VIDEO_ENDLINE), (0, INTERRUPT_BLITTER),
                      (480000, INTERRUPT_MFP_MAIN_TIMERA)],
             nCpuFreqShift = 1, dispatching = None\<rparr>"
  have ok: "table_ok ?t"
    by (simp add: table_ok_def chain_ok_def less_eq_prod_def INTERRUPT_VIDEO_ENDLINE_def
        INTERRUPT_BLITTER_def INTERRUPT_MFP_MAIN_TIMERA_def MAX_INTERRUPTS_def)
  have e: "snapshot_entry ?t INTERRUPT_MFP_MAIN_TIMERA = (True, 1440000)"
    by (simp add: snapshot_entry_def absolute_ticks_def INTERRUPT_VIDEO_ENDLINE_def
        INTERRUPT_BLITTER_def INTERRUPT_MFP_MAIN_TIMERA_def)
  show ?thesis
    using snapshot_round_trip [OF ok] ok e by simp
qed

text \<open>
  A table that satisfies the invariant but holds an entry with negative remaining ticks:
  \<open>restore\<close> rejects the snapshot captured from it.
\<close>

lemma restore_capture_negative:
  assumes "chain_ok (chain t)" and "\<not> table_ok t"
  shows "restore (capture t) = Inl Negative_Ticks"
proof -
  let ?L = "active_entries (map (snapshot_entry t) [0 ..< MAX_INTERRUPTS])"
  from assms obtain a h where e: "(a, h) \<in> set (absolutes 0 (chain t))" "a < 0"
    by (auto simp: table_ok_def list_all_iff)
  then have "(a, h) \<in> set ?L" using set_active_entries_capture [OF assms(1)] by simp
  then have "list_ex (\<lambda>(a, h). a < 0) ?L"
    using e(2) by (auto simp: list_ex_iff)
  then show ?thesis by (simp add: restore_def capture_def)
qed

text \<open>
  Claim C3 as first stated covers every table. Arming the vertical-blank handler for -1
  cycle is accepted (a duration that converts to negative ticks is "never an error") and
  leaves an entry with -9600 remaining ticks, which fires on the next \<open>advance\<close>; the
  snapshot captured from this table is rejected by \<open>restore\<close> for its negative ticks.
\<close>

theorem snapshot_round_trip_counterexample:
  "run_calls \<lparr>chain = [], nCpuFreqShift = 0, dispatching = None\<rparr>
     [Arm (- 1) INT_CPU_CYCLE INTERRUPT_VIDEO_VBL]
     = Inr (\<lparr>chain = [(- 9600, INTERRUPT_VIDEO_VBL)], nCpuFreqShift = 0, dispatching = None\<rparr>,
            [[]])
   \<and> chain_ok [(- 9600, INTERRUPT_VIDEO_VBL)]
   \<and> restore (capture \<lparr>chain = [(- 9600, INTERRUPT_VIDEO_VBL)], nCpuFreqShift = 0,
                        dispatching = None\<rparr>) = Inl Negative_Ticks
   \<and> snd (advance \<lparr>chain = [(- 9600, INTERRUPT_VIDEO_VBL)], nCpuFreqShift = 0,
                     dispatching = None\<rparr> 0) = [INTERRUPT_VIDEO_VBL]"
proof -
  let ?t = "\<lparr>chain = [(- 9600, INTERRUPT_VIDEO_VBL)], nCpuFreqShift = 0, dispatching = None\<rparr>"
  have ok: "chain_ok (chain ?t)"
    by (simp add: chain_ok_def INTERRUPT_VIDEO_VBL_def MAX_INTERRUPTS_def)
  have n: "\<not> table_ok ?t" by (simp add: table_ok_def)
  have r: "restore (capture ?t) = Inl Negative_Ticks"
    by (rule restore_capture_negative [OF ok n])
  have a: "snd (advance ?t 0) = [INTERRUPT_VIDEO_VBL]" by (simp add: advance_def)
  have c: "run_calls \<lparr>chain = [], nCpuFreqShift = 0, dispatching = None\<rparr>
     [Arm (- 1) INT_CPU_CYCLE INTERRUPT_VIDEO_VBL] = Inr (?t, [[]])"
    by (simp add: CycInt_AddAbsoluteInterrupt_def to_canonical_def cycle_consts
        INTERRUPT_VIDEO_VBL_def MAX_INTERRUPTS_def)
  show ?thesis using ok r a c by simp
qed

subsection \<open>The tables that sequences of calls reach\<close>

lemma table_ok_reset: "table_ok (CycInt_Reset t)"
  by (simp add: CycInt_Reset_def table_ok_def chain_ok_def)

lemma table_ok_after_arm:
  assumes "table_ok t" and "h < MAX_INTERRUPTS" and "0 \<le> d"
  shows "\<exists>t'. CycInt_AddAbsoluteInterrupt t d ty h = Inr t' \<and> table_ok t'"
proof -
  let ?T = "to_canonical (nCpuFreqShift t) d ty"
  let ?c = "insert_entry ?T h (remove_entry h (chain t))"
  from assms(1) have ok: "chain_ok (chain t)"
    and nn: "\<forall>e \<in> set (absolutes 0 (chain t)). 0 \<le> fst e"
    by (auto simp: table_ok_def list_all_iff)
  have d: "distinct (map snd (chain t))" using ok by (simp add: chain_ok_def)
  have "0 \<le> ?T" by (rule to_canonical_nonneg [OF assms(3)])
  then have "\<forall>e \<in> set (absolutes 0 ?c). 0 \<le> fst e"
    using nn by (auto simp: absolutes_arm [OF d] set_insort_key)
  then have "table_ok (t\<lparr>chain := ?c\<rparr>)"
    using chain_ok_arm [OF ok assms(2), of ?T] by (auto simp: table_ok_def list_all_iff)
  then show ?thesis using assms(2) by (simp add: arm_parts)
qed

lemma table_ok_after_advance:
  assumes "table_ok t"
  shows "table_ok (fst (advance t k))"
proof -
  from assms have ok: "chain_ok (chain t)" by (simp add: table_ok_def)
  then have s: "sorted (absolutes 0 (chain t))" by (simp add: chain_ok_absolutes)
  have "\<forall>e \<in> set (absolutes 0 (fst (fire_due (- k) (chain t)))). 0 \<le> fst e"
    by (auto simp: fire_due_sorted(2) [OF s] shift_def)
  then show ?thesis
    using chain_ok_fire_due [OF ok, of k]
    by (auto simp: table_ok_def advance_parts list_all_iff)
qed

lemma run_calls_table_ok:
  assumes "table_ok t" and "list_all valid_call cs" and "list_all nonneg_call cs"
  shows "\<exists>t' tr. run_calls t cs = Inr (t', tr) \<and> table_ok t'"
  using assms
proof (induction cs arbitrary: t)
  case Nil
  then show ?case by simp
next
  case (Cons c cs)
  show ?case
  proof (cases c)
    case (Arm d ty g)
    with Cons.prems have g: "g < MAX_INTERRUPTS" "0 \<le> d"
      and v: "list_all valid_call cs" "list_all nonneg_call cs"
      by simp_all
    from table_ok_after_arm [OF Cons.prems(1) g, of ty] obtain u where
      u: "CycInt_AddAbsoluteInterrupt t d ty g = Inr u" "table_ok u"
      by blast
    from Cons.IH [OF u(2) v] u(1) Arm show ?thesis by auto
  next
    case (Advance k)
    with Cons.prems have v: "list_all valid_call cs" "list_all nonneg_call cs" by simp_all
    from Cons.IH [OF table_ok_after_advance [OF Cons.prems(1), of k] v] Advance
    show ?thesis by (auto simp: run_calls_Advance simp del: run_calls.simps(3))
  qed
qed

end
